theory Spec2Isabelle
  imports Main "HOL-Library.Multiset" "HOL-Library.Word"
begin

section \<open>Strings and numbers of the source language\<close>

text \<open>
  The program is TypeScript (\<^verbatim>\<open>get.ts\<close>, with the older JavaScript twin
  \<^verbatim>\<open>get_insta.js\<close>). Strings are modelled as \<^typ>\<open>string\<close>, one
  \<^typ>\<open>char\<close> per code unit (the Latin-1 range of the source's UTF-16 strings).
\<close>

definition is_digit :: "char \<Rightarrow> bool" where
  \<comment> \<open>the regular-expression class \<^verbatim>\<open>\d\<close>: the ten ASCII digits\<close>
  "is_digit c = (48 \<le> (of_char c :: nat) \<and> (of_char c :: nat) \<le> 57)"

definition digit_val :: "char \<Rightarrow> int" where
  "digit_val c = int (of_char c) - 48"

definition digits_value :: "string \<Rightarrow> int" where
  \<comment> \<open>the integer that a string of decimal digits denotes\<close>
  "digits_value ds = foldl (\<lambda>n c. 10 * n + digit_val c) 0 ds"

definition digit_char :: "nat \<Rightarrow> char" where
  "digit_char d = char_of (48 + d)"

function decimal :: "nat \<Rightarrow> string" where
  \<comment> \<open>number-to-string conversion of a non-negative integer, as in \<^verbatim>\<open>'_' + (i + 1)\<close>\<close>
  "decimal n = (if n < 10 then [digit_char n] else decimal (n div 10) @ [digit_char (n mod 10)])"
  by pat_completeness auto
termination
  by (relation "measure (\<lambda>n. n)") auto

declare decimal.simps [simp del]

subsection \<open>Numbers\<close>

text \<open>
  The numbers of the source are IEEE doubles. The program reads them from digit strings and
  adds or subtracts them, so every one of them is an integer-valued double, an infinity or
  \<^verbatim>\<open>NaN\<close>. \<open>Finite n\<close> is the double with the integer value \<open>n\<close>. An integer that is not a double
  becomes the nearest double, ties to the even mantissa (\<open>to_number\<close>): integers up to
  \<open>2 ^ 53\<close> in absolute value are exact, larger ones keep 53 significant bits, and from
  \<open>2 ^ 1024\<close> the result is an infinity. Negative zero is not told from zero: the program
  only compares numbers with \<open>0\<close> and subtracts them.
\<close>

datatype number = NaN | NegInfinity | Finite int | Infinity

function bitlen :: "nat \<Rightarrow> nat" where
  \<comment> \<open>the number of binary digits\<close>
  "bitlen n = (if n = 0 then 0 else Suc (bitlen (n div 2)))"
  by pat_completeness auto
termination
  by (relation "measure (\<lambda>n. n)") auto

declare bitlen.simps [simp del]

definition round_mantissa :: "nat \<Rightarrow> nat" where
  \<comment> \<open>a magnitude rounded to 53 significant bits, to nearest, ties to even\<close>
  "round_mantissa a =
     (let k = bitlen a - 53; q = a div 2 ^ k; r = a mod 2 ^ k; h = 2 ^ (k - 1)
      in (if h < r \<or> (r = h \<and> odd q) then q + 1 else q) * 2 ^ k)"

definition to_number :: "int \<Rightarrow> number" where
  "to_number z =
     (if \<bar>z\<bar> \<le> 2 ^ 53 then Finite z
      else if 2 ^ 1024 \<le> round_mantissa (nat \<bar>z\<bar>) then (if z < 0 then NegInfinity else Infinity)
      else Finite (if z < 0 then - int (round_mantissa (nat \<bar>z\<bar>)) else int (round_mantissa (nat \<bar>z\<bar>))))"

fun num_add :: "number \<Rightarrow> number \<Rightarrow> number" where
  "num_add (Finite x) (Finite y) = to_number (x + y)"
| "num_add NaN _ = NaN"
| "num_add _ NaN = NaN"
| "num_add Infinity NegInfinity = NaN"
| "num_add NegInfinity Infinity = NaN"
| "num_add Infinity _ = Infinity"
| "num_add _ Infinity = Infinity"
| "num_add NegInfinity _ = NegInfinity"
| "num_add _ NegInfinity = NegInfinity"

fun num_neg :: "number \<Rightarrow> number" where
  "num_neg NaN = NaN"
| "num_neg NegInfinity = Infinity"
| "num_neg (Finite x) = Finite (- x)"
| "num_neg Infinity = NegInfinity"

definition num_sub :: "number \<Rightarrow> number \<Rightarrow> number" where
  "num_sub a b = num_add a (num_neg b)"

fun num_positive :: "number \<Rightarrow> bool" where
  \<comment> \<open>\<^verbatim>\<open>n > 0\<close>, which is false for \<^verbatim>\<open>NaN\<close>\<close>
  "num_positive (Finite x) = (0 < x)"
| "num_positive Infinity = True"
| "num_positive _ = False"

fun num_less :: "number \<Rightarrow> number \<Rightarrow> bool" where
  \<comment> \<open>the order of the numbers; nothing is below or above \<^verbatim>\<open>NaN\<close>\<close>
  "num_less (Finite x) (Finite y) = (x < y)"
| "num_less NaN _ = False"
| "num_less _ NaN = False"
| "num_less _ NegInfinity = False"
| "num_less NegInfinity _ = True"
| "num_less Infinity _ = False"
| "num_less _ Infinity = True"

definition is_space :: "char \<Rightarrow> bool" where
  \<comment> \<open>white space skipped by \<^verbatim>\<open>parseInt\<close>: TAB, LF, VT, FF, CR, SP, NBSP\<close>
  "is_space c = ((of_char c :: nat) \<in> {9, 10, 11, 12, 13, 32, 160})"

definition parseInt :: "string \<Rightarrow> number" where
  \<comment> \<open>\<^verbatim>\<open>parseInt(str, 10)\<close>: white space, a sign, then the longest run of digits, whose integer
      becomes a number; with more than 20 digits the language lets an implementation round
      less precisely than \<open>to_number\<close> does\<close>
  "parseInt str =
     (let s = dropWhile is_space str;
          neg = (case s of [] \<Rightarrow> False | c # _ \<Rightarrow> c = CHR ''-'');
          s' = (case s of [] \<Rightarrow> [] | c # r \<Rightarrow> if c = CHR ''-'' \<or> c = CHR ''+'' then r else s);
          ds = takeWhile is_digit s'
      in if ds = [] then NaN else to_number (if neg then - digits_value ds else digits_value ds))"

definition or_default :: "string option \<Rightarrow> string \<Rightarrow> string" where
  \<comment> \<open>\<^verbatim>\<open>attr || dflt\<close>: a missing or empty attribute is falsy\<close>
  "or_default attr dflt = (case attr of None \<Rightarrow> dflt | Some s \<Rightarrow> if s = [] then dflt else s)"

definition truthy :: "string option \<Rightarrow> bool" where
  "truthy attr = (case attr of None \<Rightarrow> False | Some s \<Rightarrow> s \<noteq> [])"

definition toLowerCase :: "string \<Rightarrow> string" where
  \<comment> \<open>the ASCII letters; no other character of the range becomes an ASCII letter, so a
      comparison of the result with an ASCII word is as in the source\<close>
  "toLowerCase s =
     map (\<lambda>c. if 65 \<le> (of_char c :: nat) \<and> (of_char c :: nat) \<le> 90
               then char_of ((of_char c :: nat) + 32) else c) s"

fun str_includes :: "string \<Rightarrow> string \<Rightarrow> bool" where
  \<comment> \<open>\<^verbatim>\<open>s.includes(t)\<close>: \<open>t\<close> occurs in \<open>s\<close> as a substring\<close>
  "str_includes [] t = (t = [])"
| "str_includes (c # s) t = (take (length t) (c # s) = t \<or> str_includes s t)"

section \<open>Byte ranges\<close>

definition parseByteRange :: "string \<Rightarrow> (number \<times> number) option" where
  \<comment> \<open>\<^verbatim>\<open>str.match(/^(\d+)-(\d+)$/)\<close>: the first group is the maximal digit prefix, since
      it is followed by the non-digit \<^verbatim>\<open>-\<close>; \<open>None\<close> is \<^verbatim>\<open>null\<close>\<close>
  "parseByteRange str =
     (let a = takeWhile is_digit str in
      case dropWhile is_digit str of
        [] \<Rightarrow> None
      | c # b \<Rightarrow>
          if a \<noteq> [] \<and> c = CHR ''-'' \<and> b \<noteq> [] \<and> list_all is_digit b
          then Some (parseInt a, parseInt b) else None)"

definition range_form :: "string \<Rightarrow> string \<Rightarrow> string \<Rightarrow> bool" where
  \<comment> \<open>\<open>str\<close> is \<^verbatim>\<open><a>-<b>\<close> with \<open>a\<close> and \<open>b\<close> non-empty digit strings\<close>
  "range_form str a b =
     (str = a @ ''-'' @ b \<and> a \<noteq> [] \<and> b \<noteq> [] \<and> list_all is_digit a \<and> list_all is_digit b)"

section \<open>The environment: network, file system, external tools\<close>

text \<open>
  The HTTP client, the XML parser, the file system, the path library and the \<^verbatim>\<open>ffmpeg\<close>
  process are outside the program. Their behaviour is a parameter (\<open>world\<close>); what the program did to them is recorded
  in the state that every effectful function takes and returns. Console output and the
  creation of directories (\<^verbatim>\<open>mkdirSync\<close> with \<^verbatim>\<open>recursive\<close>) are not modelled.
\<close>

type_synonym buffer = "8 word list"

type_synonym request = "string \<times> (number \<times> number) option"

datatype response = Rejected | Response nat buffer

text \<open>
  A request is a URL with the \<^verbatim>\<open>Range: bytes=start-end\<close> header, if any. The fetch promise
  rejects, or resolves with a status and a body.
\<close>

definition ok :: "nat \<Rightarrow> bool" where
  \<comment> \<open>\<^verbatim>\<open>res.ok\<close>\<close>
  "ok status = (200 \<le> status \<and> status \<le> 299)"

datatype error =
    TypeError
  | Fetch_rejected
  | Http_error nat string
  | Xml_error
  | Fs_error string
  | Exec_error nat

record representation =
  rid :: string
  bandwidth :: "string option"
  codecs :: "string option"
  mimeType :: "string option"
  FBContentLength :: "string option"
  BaseURL :: "string list"
  FBFirstSegmentRange :: "string option"
  FBSecondSegmentRange :: "string option"
  FBPrefetchSegmentRange :: "string option"
  Initialization :: "string list"

text \<open>
  A \<^verbatim>\<open>DashRepresentation\<close>. The source reads \<^verbatim>\<open>repr.SegmentBase[0]\<close> only; the attributes of
  that element and the \<^verbatim>\<open>range\<close> attributes of its \<^verbatim>\<open>Initialization\<close> children are the last four
  fields (an empty \<open>Initialization\<close> list also stands for a missing \<^verbatim>\<open>SegmentBase\<close>).
\<close>

datatype reps = One representation | Many "representation list"

record adaptation_set =
  contentType :: "string option"
  Representation :: "reps option"

record world =
  nodeFetch :: "request list \<Rightarrow> request \<Rightarrow> response"
  parseStringPromise :: "string \<Rightarrow> adaptation_set list option list option"
  write_fails :: "string \<Rightarrow> bool"
  unlink_fails :: "string \<Rightarrow> bool"
  path_join :: "string \<Rightarrow> string \<Rightarrow> string"
  ffmpeg :: "(string \<rightharpoonup> buffer) \<Rightarrow> string \<Rightarrow> nat \<times> buffer option"

text \<open>
  \<open>nodeFetch\<close> answers a request, given the requests made before it.
  \<open>parseStringPromise\<close> gives \<^verbatim>\<open>parsed.MPD.Period\<close> as the list of the periods'
  \<^verbatim>\<open>AdaptationSet\<close> fields (\<open>None\<close> for one that is not an array), or \<open>None\<close> when the XML does
  not parse. \<open>write_fails\<close> tells whether \<^verbatim>\<open>writeFileSync\<close> throws for a path, and
  \<open>unlink_fails\<close> whether \<^verbatim>\<open>unlinkSync\<close> throws for an existing file, which then stays.
  \<open>path_join\<close> is \<^verbatim>\<open>path.join\<close> on two segments. \<open>ffmpeg\<close> maps the files and the output path
  to the exit status and the output file written, if any.
\<close>

record state =
  requests :: "request list"
  files :: "string \<rightharpoonup> buffer"
  execs :: "string list"

definition init_state :: state where
  "init_state = \<lparr>requests = [], files = Map.empty, execs = []\<rparr>"

definition writeFileSync :: "world \<Rightarrow> string \<Rightarrow> buffer \<Rightarrow> state \<Rightarrow> (error + unit) \<times> state" where
  "writeFileSync w p buf st =
     (if write_fails w p then (Inl (Fs_error p), st)
      else (Inr (), st\<lparr>files := (files st)(p \<mapsto> buf)\<rparr>))"

definition unlinkSync :: "world \<Rightarrow> string \<Rightarrow> state \<Rightarrow> (error + unit) \<times> state" where
  \<comment> \<open>throws when there is no such file, or when the file cannot be removed\<close>
  "unlinkSync w p st =
     (if p \<in> dom (files st) \<and> \<not> unlink_fails w p
      then (Inr (), st\<lparr>files := (files st)(p := None)\<rparr>)
      else (Inl (Fs_error p), st))"

definition statSync :: "string \<Rightarrow> state \<Rightarrow> (error + unit) \<times> state" where
  \<comment> \<open>throws when there is no such file\<close>
  "statSync p st = (if p \<in> dom (files st) then (Inr (), st) else (Inl (Fs_error p), st))"

definition execSync_ffmpeg :: "world \<Rightarrow> string \<Rightarrow> state \<Rightarrow> (error + unit) \<times> state" where
  \<comment> \<open>\<^verbatim>\<open>execSync\<close> of the \<^verbatim>\<open>ffmpeg\<close> command line; throws on a non-zero exit status\<close>
  "execSync_ffmpeg w outPath st =
     (case ffmpeg w (files st) outPath of
        (code, out) \<Rightarrow>
          let st' = st\<lparr>execs := execs st @ [outPath],
                       files := (case out of None \<Rightarrow> files st | Some b \<Rightarrow> (files st)(outPath \<mapsto> b))\<rparr>
          in if code = 0 then (Inr (), st') else (Inl (Exec_error code), st'))"

section \<open>DASH downloads\<close>

definition downloadRange ::
  "world \<Rightarrow> string \<Rightarrow> number option \<Rightarrow> number option \<Rightarrow> state \<Rightarrow> (error + buffer) \<times> state" where
  "downloadRange w url start end st =
     (let rq = (url, case (start, end) of (Some s, Some e) \<Rightarrow> Some (s, e) | _ \<Rightarrow> None);
          st' = st\<lparr>requests := requests st @ [rq]\<rparr>
      in case nodeFetch w (requests st) rq of
           Rejected \<Rightarrow> (Inl Fetch_rejected, st')
         | Response status body \<Rightarrow>
             if \<not> ok status then (Inl (Http_error status url), st') else (Inr body, st'))"

definition seg_ranges :: "representation \<Rightarrow> string list" where
  \<comment> \<open>the list \<^verbatim>\<open>segRanges\<close> built from the three prefetch attributes\<close>
  "seg_ranges repr =
     (let srA = FBFirstSegmentRange repr;
          srB = FBSecondSegmentRange repr;
          srP = FBPrefetchSegmentRange repr;
          segRanges = [];
          segRanges = (if truthy srA then segRanges @ [the srA] else segRanges);
          segRanges = (if truthy srB then segRanges @ [the srB] else segRanges);
          segRanges = (if truthy srP \<and> the srP \<notin> set segRanges then segRanges @ [the srP] else segRanges)
      in segRanges)"

fun download_segments ::
  "world \<Rightarrow> string \<Rightarrow> string list \<Rightarrow> buffer list \<Rightarrow> state \<Rightarrow> (error + buffer list) \<times> state" where
  \<comment> \<open>the loop \<^verbatim>\<open>for (const sr of segRanges)\<close> of \<^verbatim>\<open>get.ts\<close>: an unparseable range is skipped\<close>
  "download_segments w baseURL [] chunks st = (Inr chunks, st)"
| "download_segments w baseURL (sr # srs) chunks st =
     (case parseByteRange sr of
        None \<Rightarrow> download_segments w baseURL srs chunks st
      | Some (s, e) \<Rightarrow>
          (case downloadRange w baseURL (Some s) (Some e) st of
             (Inl err, st') \<Rightarrow> (Inl err, st')
           | (Inr segBuf, st') \<Rightarrow> download_segments w baseURL srs (chunks @ [segBuf]) st'))"

definition total_len_positive :: "representation \<Rightarrow> number option" where
  \<comment> \<open>\<^verbatim>\<open>totalLen\<close> when \<^verbatim>\<open>totalLen > 0\<close> holds\<close>
  "total_len_positive repr =
     (let totalLen = parseInt (or_default (FBContentLength repr) ''0'')
      in if num_positive totalLen then Some totalLen else None)"

definition downloadDashRepresentation ::
  "world \<Rightarrow> representation \<Rightarrow> state \<Rightarrow> (error + buffer) \<times> state" where
  "downloadDashRepresentation w repr st =
     (case (BaseURL repr, Initialization repr) of
        (baseURL # _, initRangeStr # _) \<Rightarrow>
          let initRange = (case parseByteRange initRangeStr of
                             Some r \<Rightarrow> r
                           | None \<Rightarrow> (Finite 0, Finite 0)) in
          (case downloadRange w baseURL (Some (fst initRange)) (Some (snd initRange)) st of
             (Inl err, st1) \<Rightarrow> (Inl err, st1)
           | (Inr initBuf, st1) \<Rightarrow>
               (case total_len_positive repr of
                  Some totalLen \<Rightarrow>
                    (case downloadRange w baseURL (Some (num_add (snd initRange) (Finite 1)))
                            (Some (num_sub totalLen (Finite 1))) st1 of
                       (Inl err, st2) \<Rightarrow> (Inl err, st2)
                     | (Inr mainBuf, st2) \<Rightarrow> (Inr (concat [initBuf, mainBuf]), st2))
                | None \<Rightarrow>
                    (case download_segments w baseURL (seg_ranges repr) [initBuf] st1 of
                       (Inl err, st2) \<Rightarrow> (Inl err, st2)
                     | (Inr chunks, st2) \<Rightarrow> (Inr (concat chunks), st2))))
      | _ \<Rightarrow> (Inl TypeError, st))"

fun fetch_in_order ::
  "world \<Rightarrow> string \<Rightarrow> (number \<times> number) list \<Rightarrow> state \<Rightarrow> (error + buffer) \<times> state" where
  "fetch_in_order w url [] st = (Inr [], st)"
| "fetch_in_order w url (r # rs) st =
     (let st1 = st\<lparr>requests := requests st @ [(url, Some r)]\<rparr>
      in case nodeFetch w (requests st) (url, Some r) of
           Rejected \<Rightarrow> (Inl Fetch_rejected, st1)
         | Response status body \<Rightarrow>
             if \<not> ok status then (Inl (Http_error status url), st1)
             else (case fetch_in_order w url rs st1 of
                     (Inl err, st2) \<Rightarrow> (Inl err, st2)
                   | (Inr rest, st2) \<Rightarrow> (Inr (body @ rest), st2)))"

text \<open>
  \<open>fetch_in_order\<close> is not part of the program. It is the segment assembly as the
  specification words it, for a list of byte ranges that are already numbers: request the
  ranges one after the other, give up at the first request that is rejected or answered
  with a status outside 200-299, passing that failure on with nothing else, and otherwise
  return the bodies concatenated in the order of the requests. \<open>downloadDashRepresentation\<close>
  is compared with it below.
\<close>

definition fetch_ok :: "response \<Rightarrow> bool" where
  "fetch_ok rsp = (case rsp of Rejected \<Rightarrow> False | Response status body \<Rightarrow> ok status)"

definition response_body :: "response \<Rightarrow> buffer" where
  "response_body rsp = (case rsp of Rejected \<Rightarrow> [] | Response status body \<Rightarrow> body)"

definition fetch_error :: "string \<Rightarrow> response \<Rightarrow> error" where
  "fetch_error url rsp =
     (case rsp of Rejected \<Rightarrow> Fetch_rejected | Response status body \<Rightarrow> Http_error status url)"

fun responses :: "world \<Rightarrow> request list \<Rightarrow> request list \<Rightarrow> response list" where
  "responses w h [] = []"
| "responses w h (rq # rqs) = nodeFetch w h rq # responses w (h @ [rq]) rqs"

text \<open>
  These four are not part of the program either; the theorems about the assembly are stated
  with them. \<open>responses w h rqs\<close> are the answers of the network to the requests \<open>rqs\<close> sent
  one after the other after the requests \<open>h\<close>; \<open>fetch_ok\<close> tells whether an answer is one that
  \<open>downloadRange\<close> accepts, \<open>response_body\<close> is the body of an answer, and \<open>fetch_error\<close> the error
  that \<open>downloadRange\<close> throws for an answer it does not accept.
\<close>

definition mergeDashVideoAudio ::
  "world \<Rightarrow> buffer \<Rightarrow> buffer \<Rightarrow> string \<Rightarrow> state \<Rightarrow> (error + unit) \<times> state" where
  "mergeDashVideoAudio w videoBuf audioBuf outPath st =
     (case writeFileSync w ''temp_video.mp4'' videoBuf st of
        (Inl err, st1) \<Rightarrow> (Inl err, st1)
      | (Inr _, st1) \<Rightarrow>
     (case writeFileSync w ''temp_audio.mp4'' audioBuf st1 of
        (Inl err, st2) \<Rightarrow> (Inl err, st2)
      | (Inr _, st2) \<Rightarrow>
          let st3 = (case execSync_ffmpeg w outPath st2 of
                       (Inl e, s) \<Rightarrow> s
                     | (Inr _, s) \<Rightarrow> snd (statSync outPath s));
              st4 = snd (unlinkSync w ''temp_video.mp4'' st3);
              st5 = snd (unlinkSync w ''temp_audio.mp4'' st4)
          in (Inr (), st5)))"

text \<open>
  In \<open>mergeDashVideoAudio\<close> the two writes stand before the \<^verbatim>\<open>try\<close>; the \<^verbatim>\<open>catch\<close> clause
  only logs, so whatever the \<^verbatim>\<open>try\<close> block throws is dropped (\<open>st3\<close>); the two \<^verbatim>\<open>unlinkSync\<close>
  calls of the \<^verbatim>\<open>finally\<close> clause each sit in a \<^verbatim>\<open>try\<close> with an empty \<^verbatim>\<open>catch\<close>, so only the state
  they leave counts.
\<close>

section \<open>Choosing adaptation sets and representations\<close>

definition content_type_is :: "string \<Rightarrow> adaptation_set \<Rightarrow> bool" where
  \<comment> \<open>\<^verbatim>\<open>(a.$.contentType || '').toLowerCase() === kind\<close>\<close>
  "content_type_is kind a = (toLowerCase (or_default (contentType a) []) = kind)"

fun sniff_sets :: "string \<Rightarrow> string \<Rightarrow> adaptation_set list \<Rightarrow> error + adaptation_set option" where
  \<comment> \<open>the fallback loop over the first representation's \<^verbatim>\<open>mimeType\<close> and \<^verbatim>\<open>codecs\<close>\<close>
  "sniff_sets mime codec [] = Inr None"
| "sniff_sets mime codec (a # rest) =
     (case Representation a of
        None \<Rightarrow> sniff_sets mime codec rest
      | Some rs \<Rightarrow>
          (case (case rs of One r \<Rightarrow> [r] | Many l \<Rightarrow> l) of
             [] \<Rightarrow> Inl TypeError
           | r0 # _ \<Rightarrow>
               if truthy (mimeType r0) \<and> str_includes (the (mimeType r0)) mime then Inr (Some a)
               else if truthy (codecs r0) \<and> str_includes (the (codecs r0)) codec then Inr (Some a)
               else sniff_sets mime codec rest))"

definition findVideoAdaptationSet :: "adaptation_set list \<Rightarrow> error + adaptation_set option" where
  "findVideoAdaptationSet adaptationSets =
     (case find (content_type_is ''video'') adaptationSets of
        Some direct \<Rightarrow> Inr (Some direct)
      | None \<Rightarrow> sniff_sets ''video'' ''avc1'' adaptationSets)"

definition findAudioAdaptationSet :: "adaptation_set list \<Rightarrow> error + adaptation_set option" where
  "findAudioAdaptationSet adaptationSets =
     (case find (content_type_is ''audio'') adaptationSets of
        Some direct \<Rightarrow> Inr (Some direct)
      | None \<Rightarrow> sniff_sets ''audio'' ''mp4a'' adaptationSets)"

definition bw :: "representation \<Rightarrow> number" where
  \<comment> \<open>\<^verbatim>\<open>parseInt(r.$.bandwidth || '0', 10)\<close>\<close>
  "bw r = parseInt (or_default (bandwidth r) ''0'')"

definition compare_bandwidth :: "representation \<Rightarrow> representation \<Rightarrow> number" where
  \<comment> \<open>the comparator \<^verbatim>\<open>(a, b) => parseInt(b...) - parseInt(a...)\<close>\<close>
  "compare_bandwidth a b = num_sub (bw b) (bw a)"

fun sort_insert ::
  "('a \<Rightarrow> 'a \<Rightarrow> number) \<Rightarrow> 'a \<Rightarrow> 'a list \<Rightarrow> 'a list" where
  "sort_insert cmp x [] = [x]"
| "sort_insert cmp x (y # ys) =
     (if num_positive (cmp x y) then y # sort_insert cmp x ys else x # y # ys)"

definition array_sort :: "('a \<Rightarrow> 'a \<Rightarrow> number) \<Rightarrow> 'a list \<Rightarrow> 'a list" where
  "array_sort cmp xs = foldr (sort_insert cmp) xs []"

text \<open>
  \<^verbatim>\<open>Array.prototype.sort\<close> with a comparator is stable, and a comparator result of \<^verbatim>\<open>NaN\<close>
  counts as \<open>0\<close>: an element moves behind another only when the comparator is positive. For a consistent comparator the stable order is unique, and \<open>array_sort\<close>
  (a stable insertion sort) computes it; for an inconsistent one the language leaves the
  order to the implementation, and \<open>array_sort\<close> is one such implementation.
\<close>

definition pickBestRepresentation :: "representation list \<Rightarrow> error + representation" where
  \<comment> \<open>\<^verbatim>\<open>reprs.sort(...)\<close> followed by \<^verbatim>\<open>reprs[0]\<close>, whose \<^verbatim>\<open>$\<close> is then read\<close>
  "pickBestRepresentation reprs =
     (case array_sort compare_bandwidth reprs of [] \<Rightarrow> Inl TypeError | best # _ \<Rightarrow> Inr best)"

definition reprs_of :: "adaptation_set \<Rightarrow> representation list" where
  \<comment> \<open>\<^verbatim>\<open>Array.isArray(s.Representation) ? s.Representation : [s.Representation]\<close>; a missing
      field gives \<^verbatim>\<open>[undefined]\<close>, whose first element cannot be read: modelled as no element\<close>
  "reprs_of s = (case Representation s of None \<Rightarrow> [] | Some (One r) \<Rightarrow> [r] | Some (Many l) \<Rightarrow> l)"

definition downloadBestQualityDash ::
  "world \<Rightarrow> string \<Rightarrow> string \<Rightarrow> string \<Rightarrow> state \<Rightarrow> (error + unit) \<times> state" where
  "downloadBestQualityDash w mpdXml folderName postName st =
     (case parseStringPromise w mpdXml of
        None \<Rightarrow> (Inl Xml_error, st)
      | Some [] \<Rightarrow> (Inl TypeError, st)
      | Some (None # _) \<Rightarrow> (Inr (), st)
      | Some (Some adaptationSets # _) \<Rightarrow>
     (case findVideoAdaptationSet adaptationSets of
        Inl err \<Rightarrow> (Inl err, st)
      | Inr videoSet \<Rightarrow>
     (case findAudioAdaptationSet adaptationSets of
        Inl err \<Rightarrow> (Inl err, st)
      | Inr audioSet \<Rightarrow>
     (case (videoSet, audioSet) of
        (None, _) \<Rightarrow> (Inr (), st)
      | (Some _, None) \<Rightarrow> (Inr (), st)
      | (Some vs, Some as) \<Rightarrow>
     (case (pickBestRepresentation (reprs_of vs), pickBestRepresentation (reprs_of as)) of
        (Inl err, _) \<Rightarrow> (Inl err, st)
      | (Inr _, Inl err) \<Rightarrow> (Inl err, st)
      | (Inr bestVideo, Inr bestAudio) \<Rightarrow>
     (case downloadDashRepresentation w bestVideo st of
        (Inl err, st1) \<Rightarrow> (Inl err, st1)
      | (Inr videoBuf, st1) \<Rightarrow>
     (case downloadDashRepresentation w bestAudio st1 of
        (Inl err, st2) \<Rightarrow> (Inl err, st2)
      | (Inr audioBuf, st2) \<Rightarrow>
          mergeDashVideoAudio w videoBuf audioBuf (path_join w folderName (postName @ ''.mp4'')) st2)))))))"

section \<open>Images and the recursive walk over a media item\<close>

record display_resource =
  src :: string
  config_width :: int
  config_height :: int

datatype item = Item
  (is_video: bool)
  (dash_info: "string option")
  (video_url: "string option")
  (display_resources: "display_resource list option")
  (edge_sidecar_to_children: "item list option")

text \<open>
  An \<^verbatim>\<open>InstagramMediaItem\<close>: \<open>dash_info\<close> is \<^verbatim>\<open>dash_info.video_dash_manifest\<close>, the children are
  the \<^verbatim>\<open>node\<close>s of \<^verbatim>\<open>edge_sidecar_to_children.edges\<close>; a missing \<^verbatim>\<open>is_video\<close> is \<open>False\<close>. The
  fields the walk does not read (\<^verbatim>\<open>owner\<close>, \<^verbatim>\<open>shortcode\<close>, \<^verbatim>\<open>id\<close>) are left out.
\<close>

definition best_resource :: "display_resource list \<Rightarrow> error + display_resource" where
  \<comment> \<open>\<^verbatim>\<open>reduce((acc, cur) => cur.config_width > acc.config_width ? cur : acc)\<close>, which throws
      on an empty array\<close>
  "best_resource displayResources =
     (case displayResources of
        [] \<Rightarrow> Inl TypeError
      | r # rs \<Rightarrow> Inr (foldl (\<lambda>acc cur. if config_width cur > config_width acc then cur else acc) r rs))"

definition downloadHighestResImage ::
  "world \<Rightarrow> display_resource list \<Rightarrow> string \<Rightarrow> string \<Rightarrow> state \<Rightarrow> (error + unit) \<times> state" where
  "downloadHighestResImage w displayResources folderName fileName st =
     (case best_resource displayResources of
        Inl err \<Rightarrow> (Inl err, st)
      | Inr best \<Rightarrow>
          let rq = (src best, None);
              st1 = st\<lparr>requests := requests st @ [rq]\<rparr>
          in (case nodeFetch w (requests st) rq of
                Rejected \<Rightarrow> (Inl Fetch_rejected, st1)
              | Response status body \<Rightarrow>
                  if \<not> ok status then (Inr (), st1)
                  else writeFileSync w (path_join w folderName fileName) body st1))"

definition download_direct_video ::
  "world \<Rightarrow> string \<Rightarrow> string \<Rightarrow> string \<Rightarrow> nat \<Rightarrow> state \<Rightarrow> nat \<times> state" where
  \<comment> \<open>the \<^verbatim>\<open>try\<close>/\<^verbatim>\<open>catch\<close> of the \<^verbatim>\<open>video_url\<close> branch: the count grows only if nothing threw\<close>
  "download_direct_video w url folderName postName downloadCount st =
     (let rq = (url, None);
          st1 = st\<lparr>requests := requests st @ [rq]\<rparr>
      in case nodeFetch w (requests st) rq of
           Rejected \<Rightarrow> (downloadCount, st1)
         | Response status body \<Rightarrow>
             (case writeFileSync w (path_join w folderName (postName @ ''.mp4'')) body st1 of
                (Inl _, st2) \<Rightarrow> (downloadCount, st2)
              | (Inr _, st2) \<Rightarrow> (downloadCount + 1, st2)))"

definition extract_leaf ::
  "world \<Rightarrow> item \<Rightarrow> string \<Rightarrow> string \<Rightarrow> state \<Rightarrow> (error + nat) \<times> state" where
  \<comment> \<open>the part of \<^verbatim>\<open>extractMediaRecursive\<close> after the carousel branch\<close>
  "extract_leaf w item folderName postName st =
     (case (if is_video item then
              (if truthy (dash_info item) then
                 (case downloadBestQualityDash w (the (dash_info item)) folderName postName st of
                    (Inl err, st1) \<Rightarrow> (Inl err, st1)
                  | (Inr _, st1) \<Rightarrow> (Inr (1::nat), st1))
               else if truthy (video_url item) then
                 (case download_direct_video w (the (video_url item)) folderName postName 0 st of
                    (c, st1) \<Rightarrow> (Inr c, st1))
               else (Inr 0, st))
            else (Inr 0, st)) of
        (Inl err, st1) \<Rightarrow> (Inl err, st1)
      | (Inr downloadCount, st1) \<Rightarrow>
          (case display_resources item of
             Some (r # rs) \<Rightarrow>
               (case downloadHighestResImage w (r # rs) folderName (postName @ ''.jpg'') st1 of
                  (Inl err, st2) \<Rightarrow> (Inl err, st2)
                | (Inr _, st2) \<Rightarrow> (Inr (downloadCount + 1), st2))
           | _ \<Rightarrow> (Inr downloadCount, st1)))"

fun extractMediaRecursive ::
  "world \<Rightarrow> item \<Rightarrow> string \<Rightarrow> string \<Rightarrow> state \<Rightarrow> (error + nat) \<times> state"
and extract_edges ::
  "world \<Rightarrow> item list \<Rightarrow> nat \<Rightarrow> nat \<Rightarrow> string \<Rightarrow> string \<Rightarrow> state \<Rightarrow> (error + nat) \<times> state" where
  "extractMediaRecursive w (Item v d u r (Some edges)) folderName postName st =
     extract_edges w edges 0 0 folderName postName st"
| "extractMediaRecursive w (Item v d u r None) folderName postName st =
     extract_leaf w (Item v d u r None) folderName postName st"
| "extract_edges w [] i downloadCount folderName postName st = (Inr downloadCount, st)"
| "extract_edges w (child # rest) i downloadCount folderName postName st =
     (case extractMediaRecursive w child folderName (postName @ ''_'' @ decimal (i + 1)) st of
        (Inl err, st') \<Rightarrow> (Inl err, st')
      | (Inr n, st') \<Rightarrow> extract_edges w rest (i + 1) (downloadCount + n) folderName postName st')"

text \<open>
  \<open>extract_edges\<close> is the loop \<^verbatim>\<open>for (let i = 0; i < edges.length; i++)\<close>: no handler surrounds
  the recursive call, so an exception of a child leaves the loop and the function.
\<close>

section \<open>Example inputs\<close>

text \<open>
  \<open>exact_world\<close>: every request for a range of finite numbers is answered with exactly the
  requested number of bytes, every request without a range with three bytes; no write and no
  unlink fails; \<^verbatim>\<open>ffmpeg\<close> succeeds; the folders and file names of the examples are plain
  names, which \<^verbatim>\<open>path.join\<close> joins with a slash. The other worlds differ from it in one
  component.
\<close>

definition exact_world :: world where
  "exact_world =
     \<lparr>nodeFetch = (\<lambda>h rq. case snd rq of
                              Some (Finite s, Finite e) \<Rightarrow> Response 206 (replicate (nat (e - s + 1)) 0)
                            | Some _ \<Rightarrow> Response 206 []
                            | None \<Rightarrow> Response 200 [1, 2, 3]),
      parseStringPromise = (\<lambda>xml. None),
      write_fails = (\<lambda>p. False),
      unlink_fails = (\<lambda>p. False),
      path_join = (\<lambda>folder file. folder @ ''/'' @ file),
      ffmpeg = (\<lambda>fs out. (0, Some []))\<rparr>"

definition total_repr :: "string \<Rightarrow> string \<Rightarrow> representation" where
  "total_repr ir len =
     \<lparr>rid = ''v1'', bandwidth = Some ''500000'', codecs = None, mimeType = None,
      FBContentLength = Some len, BaseURL = [''http://cdn/v''],
      FBFirstSegmentRange = None, FBSecondSegmentRange = None, FBPrefetchSegmentRange = None,
      Initialization = [ir]\<rparr>"

definition prefetch_repr :: "string \<Rightarrow> string option \<Rightarrow> string option \<Rightarrow> string option \<Rightarrow> representation" where
  "prefetch_repr ir a b p =
     \<lparr>rid = ''v2'', bandwidth = Some ''500000'', codecs = None, mimeType = None,
      FBContentLength = None, BaseURL = [''http://cdn/v''],
      FBFirstSegmentRange = a, FBSecondSegmentRange = b, FBPrefetchSegmentRange = p,
      Initialization = [ir]\<rparr>"

definition bw_repr :: "string \<Rightarrow> string option \<Rightarrow> representation" where
  "bw_repr i b =
     \<lparr>rid = i, bandwidth = b, codecs = None, mimeType = None,
      FBContentLength = None, BaseURL = [''http://cdn/'' @ i],
      FBFirstSegmentRange = None, FBSecondSegmentRange = None, FBPrefetchSegmentRange = None,
      Initialization = [''0-99'']\<rparr>"

definition tagged_set :: "string option \<Rightarrow> string \<Rightarrow> adaptation_set" where
  "tagged_set ct i = \<lparr>contentType = ct, Representation = Some (Many [bw_repr i (Some ''1000'')])\<rparr>"

definition failing_ffmpeg_world :: world where
  "failing_ffmpeg_world = exact_world\<lparr>ffmpeg := (\<lambda>fs out. (1, None))\<rparr>"

definition audio_write_fails_world :: world where
  "audio_write_fails_world = exact_world\<lparr>write_fails := (\<lambda>p. p = ''temp_audio.mp4'')\<rparr>"

definition video_unlink_fails_world :: world where
  "video_unlink_fails_world =
     exact_world\<lparr>unlink_fails := (\<lambda>p. p = ''temp_video.mp4''), ffmpeg := (\<lambda>fs out. (1, None))\<rparr>"

definition second_fetch_fails_world :: world where
  "second_fetch_fails_world =
     exact_world\<lparr>nodeFetch := (\<lambda>h rq. if length h = 1 then Response 503 []
                                       else nodeFetch exact_world h rq)\<rparr>"

definition display :: "string \<Rightarrow> int \<Rightarrow> display_resource" where
  "display url width = \<lparr>src = url, config_width = width, config_height = width\<rparr>"

definition image_item :: "display_resource list \<Rightarrow> item" where
  "image_item rs = Item False None None (Some rs) None"

definition video_item :: "string \<Rightarrow> display_resource list \<Rightarrow> item" where
  "video_item url rs = Item True None (Some url) (Some rs) None"

definition carousel :: "item list \<Rightarrow> item" where
  "carousel children = Item False None None None (Some children)"

definition first_image_rejected_world :: world where
  "first_image_rejected_world =
     exact_world\<lparr>nodeFetch := (\<lambda>h rq. if fst rq = ''http://img/1'' then Rejected else Response 200 [7])\<rparr>"

definition first_image_missing_world :: world where
  "first_image_missing_world =
     exact_world\<lparr>nodeFetch := (\<lambda>h rq. if fst rq = ''http://img/1'' then Response 404 [] else Response 200 [7])\<rparr>"

definition dash_repr :: "string \<Rightarrow> string \<Rightarrow> string \<Rightarrow> string \<Rightarrow> representation" where
  "dash_repr i b ir len =
     \<lparr>rid = i, bandwidth = Some b, codecs = None, mimeType = None,
      FBContentLength = Some len, BaseURL = [''http://cdn/'' @ i],
      FBFirstSegmentRange = None, FBSecondSegmentRange = None, FBPrefetchSegmentRange = None,
      Initialization = [ir]\<rparr>"

definition dash_video_set :: adaptation_set where
  "dash_video_set =
     \<lparr>contentType = Some ''video'', Representation = Some (Many [dash_repr ''v'' ''500000'' ''0-99'' ''1000''])\<rparr>"

definition dash_audio_set :: adaptation_set where
  "dash_audio_set =
     \<lparr>contentType = Some ''audio'', Representation = Some (One (dash_repr ''a'' ''128000'' ''0-49'' ''500''))\<rparr>"

definition dash_sets :: "adaptation_set list" where
  "dash_sets = [dash_video_set, dash_audio_set]"

definition dash_world :: world where
  "dash_world =
     exact_world\<lparr>parseStringPromise := (\<lambda>xml. if xml = ''<MPD/>'' then Some [Some dash_sets] else None),
                 ffmpeg := (\<lambda>fs out. case (fs ''temp_video.mp4'', fs ''temp_audio.mp4'') of
                                        (Some v, Some a) \<Rightarrow> (0, Some (v @ a))
                                      | _ \<Rightarrow> (1, None))\<rparr>"

definition dash_server_error_world :: world where
  "dash_server_error_world = dash_world\<lparr>nodeFetch := (\<lambda>h rq. Response 500 [])\<rparr>"

definition dash_item :: item where
  "dash_item = Item True (Some ''<MPD/>'') None None None"

section \<open>Properties of numbers\<close>

lemma bitlen_Suc0: "bitlen (Suc 0) = Suc 0"
  by (subst bitlen.simps, simp, subst bitlen.simps, simp)

lemma bitlen_bound: "0 < a \<Longrightarrow> 2 ^ (bitlen a - 1) \<le> a"
proof (induction a rule: bitlen.induct)
  case (1 n)
  show ?case
  proof (cases "n div 2 = 0")
    case True
    then have "n = Suc 0" using "1.prems" by (simp add: div_eq_0_iff) 
    then show ?thesis
      by (simp add: bitlen_Suc0)
  next
    case False
    then have ih: "2 ^ (bitlen (n div 2) - 1) \<le> n div 2"
      using 1 by simp
    have pos: "0 < bitlen (n div 2)"
      using False by (simp add: bitlen.simps [of "n div 2"])
    have "bitlen n - 1 = Suc (bitlen (n div 2) - 1)"
      using "1.prems" pos by (simp add: bitlen.simps [of n])
    then have "(2::nat) ^ (bitlen n - 1) = 2 * 2 ^ (bitlen (n div 2) - 1)"
      by simp
    also have "\<dots> \<le> 2 * (n div 2)"
      using ih by simp
    also have "\<dots> \<le> n"
      by simp
    finally show ?thesis .
  qed
qed

lemma round_mantissa_pos: "0 < a \<Longrightarrow> 0 < round_mantissa a"
proof -
  assume a: "0 < a"
  let ?k = "bitlen a - 53"
  have "(2::nat) ^ ?k \<le> 2 ^ (bitlen a - 1)"
    by (rule power_increasing) simp_all
  also have "\<dots> \<le> a"
    by (rule bitlen_bound [OF a])
  finally have "0 < a div 2 ^ ?k"
    by (simp add: div_greater_zero_iff)
  then show ?thesis
    by (simp add: round_mantissa_def Let_def)
qed

lemma bitlen_eq: "2 ^ k \<le> n \<Longrightarrow> n < 2 ^ Suc k \<Longrightarrow> bitlen n = Suc k"
proof (induction k arbitrary: n)
  case 0
  then have "n = Suc 0" by simp
  then show ?case by (simp add: bitlen_Suc0)
next
  case (Suc k)
  have "2 ^ k \<le> n div 2" "n div 2 < 2 ^ Suc k"
    using Suc.prems by simp_all
  then have "bitlen (n div 2) = Suc k"
    by (rule Suc.IH)
  moreover have "n \<noteq> 0"
  proof
    assume "n = 0"
    then have "(2::nat) ^ Suc k \<le> 0" using Suc.prems(1) by simp
    then show False by simp
  qed
  ultimately show ?case
    by (simp add: bitlen.simps [of n])
qed

lemma to_number_exact: "\<bar>z\<bar> \<le> 2 ^ 53 \<Longrightarrow> to_number z = Finite z"
  by (simp only: to_number_def if_True)

lemma to_number_small: "\<bar>z\<bar> \<le> 9007199254740992 \<Longrightarrow> to_number z = Finite z"
  by (rule to_number_exact) simp

lemma to_number_not_NaN: "to_number z \<noteq> NaN"
  unfolding to_number_def by (simp only: if_distrib [of "\<lambda>n. n \<noteq> NaN"] number.distinct split: if_splits) simp

lemma num_positive_to_number: "num_positive (to_number z) \<longleftrightarrow> 0 < z"
proof (cases "\<bar>z\<bar> \<le> 2 ^ 53")
  case True
  then show ?thesis by (simp only: to_number_exact num_positive.simps)
next
  case False
  then have "0 < nat \<bar>z\<bar>" by simp
  then have m: "0 < round_mantissa (nat \<bar>z\<bar>)" by (rule round_mantissa_pos)
  show ?thesis
  proof (cases "z < 0")
    case True
    then have "to_number z = NegInfinity \<or> to_number z = Finite (- int (round_mantissa (nat \<bar>z\<bar>)))"
      using False by (simp only: to_number_def if_False if_True split: if_splits) simp
    then show ?thesis using True m by auto
  next
    case nn: False
    then have "to_number z = Infinity \<or> to_number z = Finite (int (round_mantissa (nat \<bar>z\<bar>)))"
      using False by (simp only: to_number_def if_False if_True split: if_splits) simp
    moreover have "0 < z" using nn False by (cases "z = 0") simp_all
    ultimately show ?thesis using m by auto
  qed
qed

section \<open>Properties of byte-range parsing\<close>

lemma is_digit_dash [simp]: "\<not> is_digit CHR ''-''"
  by (simp add: is_digit_def)

lemma digit_not_sign_or_space:
  "is_digit c \<Longrightarrow> \<not> is_space c \<and> c \<noteq> CHR ''-'' \<and> c \<noteq> CHR ''+''"
  by (auto simp: is_digit_def is_space_def)

lemma takeWhile_digits: "list_all is_digit a \<Longrightarrow> takeWhile is_digit a = a"
  by (induction a) auto

lemma parseInt_digits:
  assumes "list_all is_digit a" and "a \<noteq> []"
  shows "parseInt a = to_number (digits_value a)"
proof -
  obtain c r where a: "a = c # r" using assms(2) by (cases a) auto
  have c: "is_digit c" and r: "list_all is_digit r" using assms(1) a by simp_all
  have tw: "takeWhile is_digit r = r"
    using r by (rule takeWhile_digits)
  have "parseInt (c # r) = to_number (digits_value (c # r))"
    using c digit_not_sign_or_space [OF c]
    by (simp add: parseInt_def Let_def tw)
  then show ?thesis using a by simp
qed

lemma takeWhile_digits_dash:
  "list_all is_digit a \<Longrightarrow> takeWhile is_digit (a @ CHR ''-'' # b) = a"
  by (induction a) auto

lemma dropWhile_digits_dash:
  "list_all is_digit a \<Longrightarrow> dropWhile is_digit (a @ CHR ''-'' # b) = CHR ''-'' # b"
  by (induction a) auto

lemma parseByteRange_form:
  "range_form str a b \<Longrightarrow>
   parseByteRange str = Some (to_number (digits_value a), to_number (digits_value b))"
  by (simp add: range_form_def parseByteRange_def takeWhile_digits_dash dropWhile_digits_dash
      parseInt_digits)

lemma parseByteRange_Some_form:
  assumes "parseByteRange str = Some (x, y)"
  shows "\<exists>a b. range_form str a b \<and> x = to_number (digits_value a) \<and> y = to_number (digits_value b)"
proof -
  let ?a = "takeWhile is_digit str"
  obtain c b where r: "dropWhile is_digit str = c # b"
    using assms by (cases "dropWhile is_digit str") (auto simp: parseByteRange_def)
  have c: "?a \<noteq> []" "c = CHR ''-''" "b \<noteq> []" "list_all is_digit b" "x = parseInt ?a" "y = parseInt b"
    using assms r by (auto simp: parseByteRange_def Let_def split: if_splits)
  have "str = ?a @ c # b"
    using r takeWhile_dropWhile_id [of is_digit str] by simp
  moreover have d: "list_all is_digit ?a"
    by (simp add: list_all_iff) (meson set_takeWhileD)
  ultimately have "range_form str ?a b"
    using c by (simp add: range_form_def)
  moreover have "x = to_number (digits_value ?a)" "y = to_number (digits_value b)"
    using c d by (simp_all add: parseInt_digits)
  ultimately show ?thesis by blast
qed

lemma digits_value_snoc: "digits_value (ds @ [c]) = 10 * digits_value ds + digit_val c"
  by (simp add: digits_value_def)

lemma digit_char_props:
  "d < 10 \<Longrightarrow> is_digit (digit_char d) \<and> digit_val (digit_char d) = int d"
  by (simp add: is_digit_def digit_val_def digit_char_def)

lemma decimal_digits:
  "list_all is_digit (decimal n) \<and> decimal n \<noteq> [] \<and> digits_value (decimal n) = int n"
proof (induction n rule: decimal.induct)
  case (1 n)
  show ?case
  proof (cases "n < 10")
    case True
    then show ?thesis
      using digit_char_props [of n] by (simp add: decimal.simps [of n] digits_value_def)
  next
    case False
    have m: "n mod 10 < 10" by simp
    from False 1 have ih: "list_all is_digit (decimal (n div 10))"
        "digits_value (decimal (n div 10)) = int (n div 10)"
      by simp_all
    have "digits_value (decimal n) = 10 * int (n div 10) + int (n mod 10)"
      using False ih digit_char_props [OF m] by (simp add: decimal.simps [of n] digits_value_snoc)
    also have "\<dots> = int n"
      by (simp add: of_nat_div of_nat_mod)
    finally show ?thesis
      using False ih digit_char_props [OF m] by (simp add: decimal.simps [of n])
  qed
qed

text \<open>
  Claim C5, as amended. A string \<^verbatim>\<open><start>-<end>\<close> made of two non-empty digit strings parses
  to the pair of the numbers they denote, whatever their order, since the regular expression
  does not compare them: the decimal renderings of two naturals up to \<open>2 ^ 53\<close> round-trip
  exactly, and larger digit strings give the nearest doubles. Every other string gives
  \<^verbatim>\<open>null\<close>. The function is total.
\<close>

theorem parseByteRange_roundtrip:
  "(s \<le> 2 ^ 53 \<and> e \<le> 2 ^ 53 \<longrightarrow>
      parseByteRange (decimal s @ ''-'' @ decimal e) = Some (Finite (int s), Finite (int e)))
   \<and> parseByteRange (decimal s @ ''-'' @ decimal e) = Some (to_number (int s), to_number (int e))
   \<and> (parseByteRange str = None \<longleftrightarrow> \<not> (\<exists>a b. range_form str a b))
   \<and> (\<forall>x y. parseByteRange str = Some (x, y) \<longleftrightarrow>
         (\<exists>a b. range_form str a b \<and> x = to_number (digits_value a) \<and> y = to_number (digits_value b)))"
proof -
  have rt: "parseByteRange (decimal s @ ''-'' @ decimal e) = Some (to_number (int s), to_number (int e))"
    using parseByteRange_form [of "decimal s @ ''-'' @ decimal e" "decimal s" "decimal e"]
      decimal_digits [of s] decimal_digits [of e]
    by (simp add: range_form_def)
  have ex: "s \<le> 2 ^ 53 \<and> e \<le> 2 ^ 53 \<longrightarrow>
      parseByteRange (decimal s @ ''-'' @ decimal e) = Some (Finite (int s), Finite (int e))"
  proof
    assume "s \<le> 2 ^ 53 \<and> e \<le> 2 ^ 53"
    then have "to_number (int s) = Finite (int s)" "to_number (int e) = Finite (int e)"
      by (simp_all add: to_number_exact)
    then show "parseByteRange (decimal s @ ''-'' @ decimal e) = Some (Finite (int s), Finite (int e))"
      using rt by simp
  qed
  have some: "\<forall>x y. parseByteRange str = Some (x, y) \<longleftrightarrow>
      (\<exists>a b. range_form str a b \<and> x = to_number (digits_value a) \<and> y = to_number (digits_value b))"
    using parseByteRange_Some_form parseByteRange_form by blast
  have none: "parseByteRange str = None \<longleftrightarrow> \<not> (\<exists>a b. range_form str a b)"
  proof
    assume "parseByteRange str = None"
    then show "\<not> (\<exists>a b. range_form str a b)"
      using parseByteRange_form by fastforce
  next
    assume n: "\<not> (\<exists>a b. range_form str a b)"
    show "parseByteRange str = None"
    proof (cases "parseByteRange str")
      case None
      then show ?thesis .
    next
      case (Some p)
      then show ?thesis
        using parseByteRange_Some_form [of str "fst p" "snd p"] n by auto
    qed
  qed
  show ?thesis
    by (rule conjI [OF ex conjI [OF rt conjI [OF none some]]])
qed

lemmas parse_eval =
  parseByteRange_def parseInt_def is_space_def is_digit_def digits_value_def digit_val_def
  to_number_small

text \<open>An instance: \<^verbatim>\<open>0-999\<close> parses, \<^verbatim>\<open>0-999-\<close> does not.\<close>

theorem parseByteRange_roundtrip_witness:
  "parseByteRange ''0-999'' = Some (Finite 0, Finite 999) \<and> parseByteRange ''0-999-'' = None
   \<and> range_form ''0-999'' ''0'' ''999''"
  using parseByteRange_roundtrip [of 0 999 "''0-999-''"]
  by (simp add: parse_eval range_form_def)

text \<open>
  Claim C5 as stated fails: \<^verbatim>\<open>5-3\<close> has \<open>start > end\<close>, so it is one of the "other" strings,
  yet it parses to a pair instead of \<^verbatim>\<open>null\<close>.
\<close>

theorem parseByteRange_reversed_counterexample:
  "parseByteRange ''5-3'' = Some (Finite 5, Finite 3)"
  by (simp add: parse_eval)

text \<open>
  Beyond \<open>2 ^ 53\<close> the numbers are rounded: \<open>2 ^ 53 + 1\<close> is read as \<open>2 ^ 53\<close>.
\<close>

lemma parseByteRange_rounds:
  "parseByteRange ''0-9007199254740993'' = Some (Finite 0, Finite 9007199254740992)"
proof -
  have b: "bitlen 9007199254740993 = Suc 53"
    by (rule bitlen_eq) simp_all
  have "round_mantissa 9007199254740993 = 9007199254740992"
    by (simp add: round_mantissa_def b)
  then have "to_number 9007199254740993 = Finite 9007199254740992"
    by (simp add: to_number_def)
  moreover have "digits_value ''9007199254740993'' = 9007199254740993"
    by (simp add: digits_value_def digit_val_def)
  ultimately show ?thesis
    by (simp add: parseByteRange_def parseInt_def is_space_def is_digit_def to_number_small)
       (simp add: digits_value_def digit_val_def to_number_small)
qed

section \<open>Segment assembly as a sequence of fetches\<close>

lemma downloadRange_Response:
  "nodeFetch w (requests st) (url, Some (s, e)) = Response c b \<Longrightarrow> ok c \<Longrightarrow>
   downloadRange w url (Some s) (Some e) st = (Inr b, st\<lparr>requests := requests st @ [(url, Some (s, e))]\<rparr>)"
  by (simp add: downloadRange_def)

lemma downloadRange_requests:
  "requests (snd (downloadRange w url (Some s) (Some e) st)) = requests st @ [(url, Some (s, e))]"
  by (simp add: downloadRange_def Let_def split: response.splits)

lemma downloadRange_fetch_in_order:
  "downloadRange w url (Some s) (Some e) st = fetch_in_order w url [(s, e)] st"
  by (simp add: downloadRange_def Let_def split: response.splits)

lemma fetch_in_order_Cons:
  "fetch_in_order w url (r # rs) st =
     (case downloadRange w url (Some (fst r)) (Some (snd r)) st of
        (Inl err, st1) \<Rightarrow> (Inl err, st1)
      | (Inr body, st1) \<Rightarrow>
          (case fetch_in_order w url rs st1 of
             (Inl err, st2) \<Rightarrow> (Inl err, st2)
           | (Inr rest, st2) \<Rightarrow> (Inr (body @ rest), st2)))"
  by (cases r) (simp add: downloadRange_def Let_def split: response.splits)

lemma download_segments_fetch_in_order:
  "map_prod (map_sum id concat) id (download_segments w url srs chunks st) =
     (case fetch_in_order w url (List.map_filter parseByteRange srs) st of
        (Inl err, st') \<Rightarrow> (Inl err, st')
      | (Inr buf, st') \<Rightarrow> (Inr (concat chunks @ buf), st'))"
proof (induction srs arbitrary: chunks st)
  case Nil
  show ?case by (simp add: List.map_filter_simps)
next
  case (Cons sr srs)
  show ?case
  proof (cases "parseByteRange sr")
    case None
    then show ?thesis
      using Cons [of chunks st] by (simp add: List.map_filter_simps)
  next
    case (Some r)
    obtain s e where r: "r = (s, e)" by (cases r)
    have m: "List.map_filter parseByteRange (sr # srs) = (s, e) # List.map_filter parseByteRange srs"
      using Some r by (simp add: List.map_filter_simps)
    obtain res st1 where d: "downloadRange w url (Some s) (Some e) st = (res, st1)"
      by (cases "downloadRange w url (Some s) (Some e) st")
    show ?thesis
    proof (cases res)
      case (Inl err)
      then show ?thesis
        using Some r d by (simp add: m fetch_in_order_Cons del: fetch_in_order.simps)
    next
      case (Inr b)
      then show ?thesis
        using Some r d Cons [of "chunks @ [b]" st1]
        by (simp add: m fetch_in_order_Cons del: fetch_in_order.simps split: prod.splits sum.splits)
    qed
  qed
qed

lemma downloadDashRepresentation_fetch_in_order:
  assumes "BaseURL repr = url # us" and "Initialization repr = ir # irs"
  shows "downloadDashRepresentation w repr st =
     fetch_in_order w url
       ((case parseByteRange ir of Some r \<Rightarrow> r | None \<Rightarrow> (Finite 0, Finite 0)) #
        (case total_len_positive repr of
           Some totalLen \<Rightarrow>
             [(num_add (snd (case parseByteRange ir of Some r \<Rightarrow> r | None \<Rightarrow> (Finite 0, Finite 0))) (Finite 1),
               num_sub totalLen (Finite 1))]
         | None \<Rightarrow> List.map_filter parseByteRange (seg_ranges repr))) st"
proof -
  let ?i = "case parseByteRange ir of Some r \<Rightarrow> r | None \<Rightarrow> (Finite 0, Finite 0)"
  obtain res st1 where d: "downloadRange w url (Some (fst ?i)) (Some (snd ?i)) st = (res, st1)"
    by (cases "downloadRange w url (Some (fst ?i)) (Some (snd ?i)) st")
  show ?thesis
  proof (cases res)
    case (Inl err)
    then show ?thesis
      using assms d
      by (simp add: downloadDashRepresentation_def Let_def fetch_in_order_Cons del: fetch_in_order.simps)
  next
    case (Inr b)
    show ?thesis
    proof (cases "total_len_positive repr")
      case (Some L)
      then show ?thesis
        using assms d Inr
        by (simp add: downloadDashRepresentation_def Let_def fetch_in_order_Cons [of w url "?i"]
            downloadRange_fetch_in_order [symmetric] del: fetch_in_order.simps split: prod.splits sum.splits)
    next
      case None
      obtain r2 s2 where ds: "download_segments w url (seg_ranges repr) [b] st1 = (r2, s2)"
        by (cases "download_segments w url (seg_ranges repr) [b] st1")
      obtain fr fs where f: "fetch_in_order w url (List.map_filter parseByteRange (seg_ranges repr)) st1 = (fr, fs)"
        by (cases "fetch_in_order w url (List.map_filter parseByteRange (seg_ranges repr)) st1")
      have eq: "(map_sum id concat r2, s2) =
         (case fr of Inl err \<Rightarrow> (Inl err, fs) | Inr buf \<Rightarrow> (Inr (b @ buf), fs))"
        using download_segments_fetch_in_order [of w url "seg_ranges repr" "[b]" st1] ds f
        by (simp split: sum.splits)
      have "downloadDashRepresentation w repr st =
          (case r2 of Inl err \<Rightarrow> (Inl err, s2) | Inr chunks \<Rightarrow> (Inr (concat chunks), s2))"
        using assms d Inr None ds by (simp add: downloadDashRepresentation_def Let_def)
      also have "\<dots> = (case fr of Inl err \<Rightarrow> (Inl err, fs) | Inr buf \<Rightarrow> (Inr (b @ buf), fs))"
        using eq by (cases r2; cases fr) simp_all
      also have "\<dots> = fetch_in_order w url (?i # List.map_filter parseByteRange (seg_ranges repr)) st"
        using d Inr f
        by (simp add: fetch_in_order_Cons [of w url "?i"] del: fetch_in_order.simps split: sum.splits)
      finally show ?thesis
        using None by simp
    qed
  qed
qed



lemma fetch_in_order_error:
  "fetch_in_order w url rs st = (Inl err, st') \<Longrightarrow>
   err = Fetch_rejected \<or> (\<exists>c. \<not> ok c \<and> err = Http_error c url)"
proof (induction rs arbitrary: st)
  case Nil
  then show ?case by simp
next
  case (Cons r rs)
  then show ?case
    by (auto simp: Let_def split: response.splits prod.splits sum.splits if_splits)
qed

lemma digits_value_nonneg: "list_all is_digit ds \<Longrightarrow> 0 \<le> digits_value ds"
proof -
  have "list_all is_digit ds \<Longrightarrow> 0 \<le> n \<Longrightarrow> 0 \<le> foldl (\<lambda>n c. 10 * n + digit_val c) n ds" for n
  proof (induction ds arbitrary: n)
    case Nil
    then show ?case by simp
  next
    case (Cons c ds)
    have "0 \<le> digit_val c"
      using Cons.prems(1) by (simp add: is_digit_def digit_val_def)
    then have "0 \<le> 10 * n + digit_val c"
      using Cons.prems(2) by simp
    then show ?case
      using Cons.IH [of "10 * n + digit_val c"] Cons.prems(1) by simp
  qed
  then show "list_all is_digit ds \<Longrightarrow> 0 \<le> digits_value ds"
    by (simp add: digits_value_def)
qed

lemma to_number_Finite_nonneg: "0 \<le> z \<Longrightarrow> to_number z = Finite n \<Longrightarrow> 0 \<le> n"
  by (auto simp: to_number_def split: if_splits)

lemma parseByteRange_nonneg:
  assumes "parseByteRange str = Some (Finite s, Finite e)"
  shows "0 \<le> s \<and> 0 \<le> e"
proof -
  obtain a b where ab: "range_form str a b" "Finite s = to_number (digits_value a)"
      "Finite e = to_number (digits_value b)"
    using parseByteRange_Some_form [OF assms] by blast
  have "0 \<le> digits_value a" "0 \<le> digits_value b"
    using ab(1) by (simp_all add: range_form_def digits_value_nonneg)
  then show ?thesis
    using ab(2,3) to_number_Finite_nonneg by metis
qed

section \<open>Segment assembly with a declared total length\<close>

lemma total_length_ranges:
  assumes "BaseURL repr = url # us" and "Initialization repr = ir # irs"
    and "parseByteRange ir = Some (Finite s, Finite e)" and "e < 2 ^ 53"
    and "parseInt (or_default (FBContentLength repr) ''0'') = Finite L" and "0 < L" and "L \<le> 2 ^ 53"
  shows "downloadDashRepresentation w repr st =
           fetch_in_order w url [(Finite s, Finite e), (Finite (e + 1), Finite (L - 1))] st"
proof -
  have "0 \<le> e" using parseByteRange_nonneg [OF assms(3)] by simp
  then have "\<bar>e + 1\<bar> \<le> 2 ^ 53" using assms(4) by simp
  then have a: "num_add (Finite e) (Finite 1) = Finite (e + 1)"
    by (simp add: to_number_exact)
  have "\<bar>L + - 1\<bar> \<le> 2 ^ 53" using assms(6,7) by simp
  then have b: "num_sub (Finite L) (Finite 1) = Finite (L - 1)"
    by (simp add: num_sub_def to_number_exact)
  have t: "total_len_positive repr = Some (Finite L)"
    using assms(5,6) by (simp add: total_len_positive_def)
  have "downloadDashRepresentation w repr st = fetch_in_order w url
      [(Finite s, Finite e), (num_add (Finite e) (Finite 1), num_sub (Finite L) (Finite 1))] st"
    unfolding downloadDashRepresentation_fetch_in_order [OF assms(1,2)] assms(3) t
    by (simp only: option.case snd_conv)
  then show ?thesis
    unfolding a b .
qed

text \<open>
  Claim C2, as amended. For a representation with a positive total length \<open>L\<close> whose
  initialization range parses to \<open>[s, e]\<close>, all up to \<open>2 ^ 53\<close>, \<open>downloadDashRepresentation\<close>
  first requests \<open>[s, e]\<close>; when that fetch succeeds it requests \<open>[e + 1, L - 1]\<close> and nothing
  else; when both fetches succeed it returns the initialization chunk followed by the second
  chunk; and when each of the two returned exactly the requested number of bytes, the buffer
  has \<open>L - s\<close> bytes, which is \<open>L\<close> when \<open>s = 0\<close>.
\<close>

theorem assemble_total_length:
  assumes "BaseURL repr = url # us" and "Initialization repr = ir # irs"
    and "parseByteRange ir = Some (Finite s, Finite e)" and "e < 2 ^ 53"
    and "parseInt (or_default (FBContentLength repr) ''0'') = Finite L" and "0 < L" and "L \<le> 2 ^ 53"
    and "first = (url, Some (Finite s, Finite e))"
    and "second = (url, Some (Finite (e + 1), Finite (L - 1)))"
  shows "take (Suc (length (requests st))) (requests (snd (downloadDashRepresentation w repr st)))
           = requests st @ [first]
       \<and> (\<forall>c1 b1. nodeFetch w (requests st) first = Response c1 b1 \<and> ok c1 \<longrightarrow>
            requests (snd (downloadDashRepresentation w repr st)) = requests st @ [first, second])
       \<and> (\<forall>c1 b1 c2 b2.
            nodeFetch w (requests st) first = Response c1 b1 \<and> ok c1
            \<and> nodeFetch w (requests st @ [first]) second = Response c2 b2 \<and> ok c2 \<longrightarrow>
            fst (downloadDashRepresentation w repr st) = Inr (b1 @ b2)
            \<and> (int (length b1) = e - s + 1 \<and> int (length b2) = (L - 1) - (e + 1) + 1 \<longrightarrow>
                 int (length (b1 @ b2)) = L - s \<and> (s = 0 \<longrightarrow> int (length (b1 @ b2)) = L)))"
proof -
  have d: "downloadDashRepresentation w repr st = fetch_in_order w url
      [(Finite s, Finite e), (Finite (e + 1), Finite (L - 1))] st"
    using assms(1-7) by (rule total_length_ranges)
  have p1: "take (Suc (length (requests st))) (requests (snd (downloadDashRepresentation w repr st)))
           = requests st @ [first]"
    unfolding d assms(8)
    by (simp add: Let_def split: response.splits prod.splits sum.splits)
  have p2: "\<forall>c1 b1. nodeFetch w (requests st) first = Response c1 b1 \<and> ok c1 \<longrightarrow>
            requests (snd (downloadDashRepresentation w repr st)) = requests st @ [first, second]"
    unfolding d assms(8,9)
    by (simp add: Let_def split: response.splits prod.splits sum.splits)
  have p3: "\<forall>c1 b1 c2 b2.
            nodeFetch w (requests st) first = Response c1 b1 \<and> ok c1
            \<and> nodeFetch w (requests st @ [first]) second = Response c2 b2 \<and> ok c2 \<longrightarrow>
            fst (downloadDashRepresentation w repr st) = Inr (b1 @ b2)
            \<and> (int (length b1) = e - s + 1 \<and> int (length b2) = (L - 1) - (e + 1) + 1 \<longrightarrow>
                 int (length (b1 @ b2)) = L - s \<and> (s = 0 \<longrightarrow> int (length (b1 @ b2)) = L))"
    unfolding d assms(8,9)
    by (simp add: Let_def)
  show ?thesis
    by (rule conjI [OF p1 conjI [OF p2 p3]])
qed

lemma parse_0_999: "parseByteRange ''0-999'' = Some (Finite 0, Finite 999)"
  by (simp add: parse_eval)

lemma parseInt_5000: "parseInt ''5000'' = Finite 5000"
  by (simp add: parse_eval)

text \<open>The instance of the specification: range \<^verbatim>\<open>0-999\<close> and total length 5000.\<close>

theorem assemble_total_length_witness:
  "downloadDashRepresentation exact_world (total_repr ''0-999'' ''5000'') init_state =
     (Inr (replicate 1000 0 @ replicate 4000 0),
      init_state\<lparr>requests := [(''http://cdn/v'', Some (Finite 0, Finite 999)),
                               (''http://cdn/v'', Some (Finite 1000, Finite 4999))]\<rparr>)
   \<and> length (replicate 1000 (0 :: 8 word) @ replicate 4000 0) = 5000"
proof -
  have h: "BaseURL (total_repr ''0-999'' ''5000'') = ''http://cdn/v'' # []"
      "Initialization (total_repr ''0-999'' ''5000'') = ''0-999'' # []"
      "parseInt (or_default (FBContentLength (total_repr ''0-999'' ''5000'')) ''0'') = Finite 5000"
    by (simp_all add: total_repr_def or_default_def parseInt_5000)
  have b: "(999::int) < 2 ^ 53" "(0::int) < 5000" "(5000::int) \<le> 2 ^ 53"
    by simp_all
  note t = assemble_total_length [OF h(1,2) parse_0_999 b(1) h(3) b(2,3) refl refl,
      where w = exact_world and st = init_state]
  have f: "nodeFetch exact_world (requests init_state) (''http://cdn/v'', Some (Finite 0, Finite 999))
        = Response 206 (replicate 1000 0) \<and> ok 206
      \<and> nodeFetch exact_world (requests init_state @ [(''http://cdn/v'', Some (Finite 0, Finite 999))])
          (''http://cdn/v'', Some (Finite (999 + 1), Finite (5000 - 1)))
        = Response 206 (replicate 4000 0) \<and> ok 206"
    by (simp add: exact_world_def ok_def)
  have r: "requests (snd (downloadDashRepresentation exact_world (total_repr ''0-999'' ''5000'') init_state))
      = [(''http://cdn/v'', Some (Finite 0, Finite 999)), (''http://cdn/v'', Some (Finite 1000, Finite 4999))]"
    using t f by (simp add: init_state_def)
  have v: "fst (downloadDashRepresentation exact_world (total_repr ''0-999'' ''5000'') init_state)
      = Inr (replicate 1000 0 @ replicate 4000 0)"
    using t f by blast
  have s: "files (snd (downloadDashRepresentation exact_world (total_repr ''0-999'' ''5000'') init_state)) = Map.empty
      \<and> execs (snd (downloadDashRepresentation exact_world (total_repr ''0-999'' ''5000'') init_state)) = []"
    by (simp add: total_length_ranges [OF h(1,2) parse_0_999 b(1) h(3) b(2,3)] exact_world_def ok_def
        init_state_def)
  show ?thesis
    using r v s
    by (cases "downloadDashRepresentation exact_world (total_repr ''0-999'' ''5000'') init_state")
       (simp add: init_state_def)
qed

lemma parse_10_99: "parseByteRange ''10-99'' = Some (Finite 10, Finite 99)"
  by (simp add: parse_eval)

lemma parseInt_1000: "parseInt ''1000'' = Finite 1000"
  by (simp add: parse_eval)

text \<open>
  Claim C2 as stated fails when the initialization range does not start at byte 0: with
  \<^verbatim>\<open>10-99\<close> and total length 1000 every fetch returns exactly the requested bytes, and the
  buffer has 990 bytes, not 1000.
\<close>

theorem assemble_total_length_counterexample:
  "total_len_positive (total_repr ''10-99'' ''1000'') = Some (Finite 1000)
   \<and> map_sum id length (fst (downloadDashRepresentation exact_world (total_repr ''10-99'' ''1000'') init_state))
       = Inr 990
   \<and> requests (snd (downloadDashRepresentation exact_world (total_repr ''10-99'' ''1000'') init_state))
       = [(''http://cdn/v'', Some (Finite 10, Finite 99)), (''http://cdn/v'', Some (Finite 100, Finite 999))]"
  by (simp add: downloadDashRepresentation_def downloadRange_def total_len_positive_def parse_10_99
      parseInt_1000 total_repr_def exact_world_def init_state_def or_default_def ok_def
      num_sub_def to_number_small)

text \<open>
  When the total length is not beyond the end of the initialization range, the second
  request is still made, for a range that ends before it starts.
\<close>

lemma assemble_short_total_length:
  "requests (snd (downloadDashRepresentation exact_world (total_repr ''0-999'' ''500'') init_state))
     = [(''http://cdn/v'', Some (Finite 0, Finite 999)), (''http://cdn/v'', Some (Finite 1000, Finite 499))]"
  by (simp add: downloadDashRepresentation_def downloadRange_def total_len_positive_def parse_0_999
      parse_eval total_repr_def exact_world_def init_state_def or_default_def ok_def
      num_sub_def)

section \<open>Segment assembly from prefetch ranges\<close>

lemma seg_ranges_eq:
  "seg_ranges repr =
     map the (filter truthy [FBFirstSegmentRange repr, FBSecondSegmentRange repr]
        @ (if truthy (FBPrefetchSegmentRange repr)
              \<and> FBPrefetchSegmentRange repr \<noteq> FBFirstSegmentRange repr
              \<and> FBPrefetchSegmentRange repr \<noteq> FBSecondSegmentRange repr
           then [FBPrefetchSegmentRange repr] else []))"
  by (auto simp: seg_ranges_def truthy_def Let_def split: option.splits)





lemma parse_100_199: "parseByteRange ''100-199'' = Some (Finite 100, Finite 199)"
  by (simp add: parse_eval)

lemma parse_200_299: "parseByteRange ''200-299'' = Some (Finite 200, Finite 299)"
  by (simp add: parse_eval)

lemma parse_0_99: "parseByteRange ''0-99'' = Some (Finite 0, Finite 99)"
  by (simp add: parse_eval)



text \<open>
  The comparison is textual: \<^verbatim>\<open>0100-199\<close> denotes the same bytes as \<^verbatim>\<open>100-199\<close> and is fetched
  again.
\<close>

lemma prefetch_textual_not_numeric:
  "drop 1 (requests (snd (downloadDashRepresentation exact_world
      (prefetch_repr ''0-99'' (Some ''100-199'') None (Some ''0100-199'')) init_state)))
     = [(''http://cdn/v'', Some (Finite 100, Finite 199)), (''http://cdn/v'', Some (Finite 100, Finite 199))]"
  by (simp add: downloadDashRepresentation_def downloadRange_def seg_ranges_def
      prefetch_repr_def init_state_def exact_world_def total_len_positive_def or_default_def truthy_def ok_def
      parse_eval)

section \<open>Malformed byte ranges and failing fetches in segment assembly\<close>

lemma fetch_ok_simps:
  "fetch_ok Rejected = False" "fetch_ok (Response c b) = ok c"
  by (simp_all add: fetch_ok_def)

lemma response_body_Response: "response_body (Response c b) = b"
  by (simp add: response_body_def)

lemma fetch_error_simps:
  "fetch_error url Rejected = Fetch_rejected" "fetch_error url (Response c b) = Http_error c url"
  by (simp_all add: fetch_error_def)

lemma fetch_in_order_responses:
  "fetch_in_order w url rs st =
     (if length (takeWhile fetch_ok (responses w (requests st) (map (\<lambda>r. (url, Some r)) rs))) = length rs
      then (Inr (concat (map response_body (responses w (requests st) (map (\<lambda>r. (url, Some r)) rs)))),
            st\<lparr>requests := requests st @ map (\<lambda>r. (url, Some r)) rs\<rparr>)
      else (Inl (fetch_error url (responses w (requests st) (map (\<lambda>r. (url, Some r)) rs) !
                   length (takeWhile fetch_ok (responses w (requests st) (map (\<lambda>r. (url, Some r)) rs))))),
            st\<lparr>requests := requests st @
               take (Suc (length (takeWhile fetch_ok (responses w (requests st) (map (\<lambda>r. (url, Some r)) rs)))))
                 (map (\<lambda>r. (url, Some r)) rs)\<rparr>))"
proof (induction rs arbitrary: st)
  case Nil
  show ?case by simp
next
  case (Cons r rs)
  let ?st1 = "st\<lparr>requests := requests st @ [(url, Some r)]\<rparr>"
  have q: "requests ?st1 = requests st @ [(url, Some r)]"
    by simp
  note ih = Cons [of ?st1, unfolded q]
  show ?case
  proof (cases "nodeFetch w (requests st) (url, Some r)")
    case Rejected
    then show ?thesis
      by (simp add: fetch_ok_simps fetch_error_simps)
  next
    case (Response c b)
    show ?thesis
    proof (cases "ok c")
      case False
      then show ?thesis
        using Response by (simp add: fetch_ok_simps fetch_error_simps)
    next
      case True
      show ?thesis
        using Response True
        by (simp add: ih fetch_ok_simps response_body_Response Let_def)
    qed
  qed
qed

lemma length_responses: "length (responses w h rqs) = length rqs"
  by (induction rqs arbitrary: h) simp_all

text \<open>
  Claim C4, as amended. \<open>downloadDashRepresentation\<close> never fails because of a malformed
  byte-range string. The ranges it asks for are: the initialization range, \<open>[0, 0]\<close> when
  that string is malformed; then, with a positive total length, the rest up to that length,
  and otherwise the first-segment, second-segment and prefetch ranges that parse, a
  malformed one being skipped. They are requested in that order. When every answer is
  accepted, the result is the bodies of all the answers, concatenated in that order. At the
  first answer that is not accepted (a rejected request or a status outside 200-299) the
  assembly stops: no further request is made, the result is the error of that answer and
  no buffer. No other error is possible.
\<close>

theorem malformed_range_tolerated:
  assumes "BaseURL repr = url # us" and "Initialization repr = ir # irs"
    and "A = FBFirstSegmentRange repr" and "B = FBSecondSegmentRange repr"
    and "P = FBPrefetchSegmentRange repr"
    and "init = (case parseByteRange ir of Some r \<Rightarrow> r | None \<Rightarrow> (Finite 0, Finite 0))"
    and "ranges = init #
           (case total_len_positive repr of
              Some totalLen \<Rightarrow> [(num_add (snd init) (Finite 1), num_sub totalLen (Finite 1))]
            | None \<Rightarrow> List.map_filter parseByteRange
                (map the (filter truthy [A, B] @ (if truthy P \<and> P \<noteq> A \<and> P \<noteq> B then [P] else []))))"
    and "reqs = map (\<lambda>r. (url, Some r)) ranges"
    and "rsps = responses w (requests st) reqs"
    and "k = length (takeWhile fetch_ok rsps)"
  shows "(k = length reqs \<longrightarrow>
            downloadDashRepresentation w repr st =
              (Inr (concat (map response_body rsps)), st\<lparr>requests := requests st @ reqs\<rparr>))
       \<and> (k \<noteq> length reqs \<longrightarrow>
            k < length reqs \<and> \<not> fetch_ok (rsps ! k) \<and>
            downloadDashRepresentation w repr st =
              (Inl (fetch_error url (rsps ! k)), st\<lparr>requests := requests st @ take (Suc k) reqs\<rparr>))
       \<and> (\<forall>err. fst (downloadDashRepresentation w repr st) = Inl err \<longrightarrow>
            err = Fetch_rejected \<or> (\<exists>c. \<not> ok c \<and> err = Http_error c url))"
proof -
  have r: "ranges = init #
           (case total_len_positive repr of
              Some totalLen \<Rightarrow> [(num_add (snd init) (Finite 1), num_sub totalLen (Finite 1))]
            | None \<Rightarrow> List.map_filter parseByteRange (seg_ranges repr))"
    by (simp only: seg_ranges_eq assms(3,4,5,7))
  have d: "downloadDashRepresentation w repr st = fetch_in_order w url ranges st"
    unfolding r assms(6) by (rule downloadDashRepresentation_fetch_in_order [OF assms(1,2)])
  have l: "length reqs = length ranges"
    by (simp add: assms(8))
  have p1: "k = length reqs \<longrightarrow>
            downloadDashRepresentation w repr st =
              (Inr (concat (map response_body rsps)), st\<lparr>requests := requests st @ reqs\<rparr>)"
    unfolding d fetch_in_order_responses [of w url ranges st] assms(8) [symmetric] assms(9) [symmetric]
      assms(10) [symmetric] l by simp
  have kl: "k \<le> length reqs"
    using length_takeWhile_le [of fetch_ok rsps] by (simp add: assms(9,10) length_responses)
  have nk: "\<not> fetch_ok (rsps ! k)" if "k \<noteq> length reqs"
  proof -
    have "k < length rsps"
      using kl that by (simp add: assms(9) length_responses)
    then show ?thesis
      unfolding assms(10) by (rule nth_length_takeWhile)
  qed
  have p2: "k \<noteq> length reqs \<longrightarrow>
            k < length reqs \<and> \<not> fetch_ok (rsps ! k) \<and>
            downloadDashRepresentation w repr st =
              (Inl (fetch_error url (rsps ! k)), st\<lparr>requests := requests st @ take (Suc k) reqs\<rparr>)"
    using kl nk
    unfolding d fetch_in_order_responses [of w url ranges st] assms(8) [symmetric] assms(9) [symmetric]
      assms(10) [symmetric] l by simp
  have p3: "\<forall>err. fst (downloadDashRepresentation w repr st) = Inl err \<longrightarrow>
            err = Fetch_rejected \<or> (\<exists>c. \<not> ok c \<and> err = Http_error c url)"
  proof (intro allI impI)
    fix err
    assume "fst (downloadDashRepresentation w repr st) = Inl err"
    then have "fetch_in_order w url ranges st = (Inl err, snd (fetch_in_order w url ranges st))"
      unfolding d by (cases "fetch_in_order w url ranges st") simp
    then show "err = Fetch_rejected \<or> (\<exists>c. \<not> ok c \<and> err = Http_error c url)"
      by (rule fetch_in_order_error)
  qed
  show ?thesis
    by (rule conjI [OF p1 conjI [OF p2 p3]])
qed

lemma parse_malformed: "parseByteRange ''abc'' = None" "parseByteRange ''0-'' = None"
  by (simp_all add: parseByteRange_def is_digit_def)

text \<open>
  Two instances with the malformed initialization range \<^verbatim>\<open>abc\<close> and the malformed
  second-segment range \<^verbatim>\<open>0-\<close>: one in which both fetches succeed, one in which the second
  is answered with status 503.
\<close>

theorem malformed_range_tolerated_witness:
  "downloadDashRepresentation exact_world
       (prefetch_repr ''abc'' (Some ''100-199'') (Some ''0-'') None) init_state
     = (Inr (replicate 1 0 @ replicate 100 0),
        init_state\<lparr>requests := [(''http://cdn/v'', Some (Finite 0, Finite 0)),
                                 (''http://cdn/v'', Some (Finite 100, Finite 199))]\<rparr>)
   \<and> downloadDashRepresentation second_fetch_fails_world
       (prefetch_repr ''abc'' (Some ''100-199'') (Some ''0-'') (Some ''200-299'')) init_state
     = (Inl (Http_error 503 ''http://cdn/v''),
        init_state\<lparr>requests := [(''http://cdn/v'', Some (Finite 0, Finite 0)),
                                 (''http://cdn/v'', Some (Finite 100, Finite 199))]\<rparr>)"
proof -
  have t: "total_len_positive (prefetch_repr ''abc'' a b p) = None" for a b p
    by (simp add: prefetch_repr_def total_len_positive_def or_default_def parse_eval)
  have h: "BaseURL (prefetch_repr ''abc'' a b p) = ''http://cdn/v'' # []"
      "Initialization (prefetch_repr ''abc'' a b p) = ''abc'' # []"
      "FBFirstSegmentRange (prefetch_repr ''abc'' a b p) = a"
      "FBSecondSegmentRange (prefetch_repr ''abc'' a b p) = b"
      "FBPrefetchSegmentRange (prefetch_repr ''abc'' a b p) = p" for a b p
    by (simp_all add: prefetch_repr_def)
  note ev = t h parse_malformed parse_100_199 parse_200_299 List.map_filter_simps truthy_def
      fetch_ok_simps fetch_error_simps response_body_Response ok_def init_state_def
  have 1: "downloadDashRepresentation exact_world
       (prefetch_repr ''abc'' (Some ''100-199'') (Some ''0-'') None) init_state
     = (Inr (replicate 1 0 @ replicate 100 0),
        init_state\<lparr>requests := [(''http://cdn/v'', Some (Finite 0, Finite 0)),
                                 (''http://cdn/v'', Some (Finite 100, Finite 199))]\<rparr>)"
    using malformed_range_tolerated [OF h(1,2) [of "Some ''100-199''" "Some ''0-''" None]
        refl refl refl refl refl refl refl refl, where w = exact_world and st = init_state]
    by (simp add: ev exact_world_def)
  have 2: "downloadDashRepresentation second_fetch_fails_world
       (prefetch_repr ''abc'' (Some ''100-199'') (Some ''0-'') (Some ''200-299'')) init_state
     = (Inl (Http_error 503 ''http://cdn/v''),
        init_state\<lparr>requests := [(''http://cdn/v'', Some (Finite 0, Finite 0)),
                                 (''http://cdn/v'', Some (Finite 100, Finite 199))]\<rparr>)"
    using malformed_range_tolerated [OF h(1,2) [of "Some ''100-199''" "Some ''0-''" "Some ''200-299''"]
        refl refl refl refl refl refl refl refl, where w = second_fetch_fails_world and st = init_state]
    by (simp add: ev exact_world_def second_fetch_fails_world_def)
  show ?thesis
    by (rule conjI [OF 1 2])
qed

text \<open>
  Claim C4 as stated fails: with the initialization range \<^verbatim>\<open>abc\<close> and the second-segment range
  \<^verbatim>\<open>0-\<close> the assembly does not fail; it requests bytes 0-0, skips the malformed prefetch
  range and returns the two chunks it fetched.
\<close>

theorem malformed_range_counterexample:
  "parseByteRange ''abc'' = None \<and> parseByteRange ''0-'' = None
   \<and> downloadDashRepresentation exact_world
       (prefetch_repr ''abc'' (Some ''100-199'') (Some ''0-'') None) init_state
     = (Inr (replicate 1 0 @ replicate 100 0),
        init_state\<lparr>requests := [(''http://cdn/v'', Some (Finite 0, Finite 0)),
                                 (''http://cdn/v'', Some (Finite 100, Finite 199))]\<rparr>)"
  by (simp add: downloadDashRepresentation_def downloadRange_def seg_ranges_def
      prefetch_repr_def init_state_def exact_world_def total_len_positive_def or_default_def truthy_def ok_def
      parse_malformed parse_100_199 parse_eval)

section \<open>The representation with the highest bandwidth\<close>

lemma num_positive_sub:
  assumes "a \<noteq> NaN" and "b \<noteq> NaN"
  shows "num_positive (num_sub b a) \<longleftrightarrow> num_less a b"
proof (cases a)
  case NaN
  then show ?thesis using assms by simp
next
  case NegInfinity
  then show ?thesis using assms by (cases b) (simp_all add: num_sub_def)
next
  case (Finite x)
  then show ?thesis using assms by (cases b) (simp_all add: num_sub_def num_positive_to_number)
next
  case Infinity
  then show ?thesis using assms by (cases b) (simp_all add: num_sub_def)
qed

lemma num_less_trans: "num_less a b \<Longrightarrow> num_less b c \<Longrightarrow> num_less a c"
  by (cases a; cases b; cases c) simp_all

lemma num_less_irrefl: "\<not> num_less a a"
  by (cases a) simp_all

lemma num_not_less_trans:
  "b \<noteq> NaN \<Longrightarrow> \<not> num_less a b \<Longrightarrow> \<not> num_less b c \<Longrightarrow> \<not> num_less a c"
  by (cases a; cases b; cases c) simp_all

lemma sort_insert_parsed:
  assumes "bw x \<noteq> NaN" and "bw y \<noteq> NaN"
  shows "sort_insert compare_bandwidth x (y # ys) =
           (if num_less (bw x) (bw y) then y # sort_insert compare_bandwidth x ys else x # y # ys)"
  using num_positive_sub [OF assms] by (simp add: compare_bandwidth_def)

lemma set_sort_insert: "set (sort_insert cmp x ys) = insert x (set ys)"
  by (induction ys) auto

lemma set_array_sort: "set (array_sort cmp xs) = set xs"
  by (induction xs) (simp_all add: array_sort_def set_sort_insert)

lemma array_sort_Cons: "array_sort cmp (x # xs) = sort_insert cmp x (array_sort cmp xs)"
  by (simp add: array_sort_def)

lemma first_max_head:
  assumes "\<forall>r \<in> set xs. bw r \<noteq> NaN" and "xs \<noteq> []"
  shows "\<exists>b rest pre post. array_sort compare_bandwidth xs = b # rest \<and> xs = pre @ b # post
           \<and> (\<forall>r \<in> set pre. num_less (bw r) (bw b)) \<and> (\<forall>r \<in> set post. \<not> num_less (bw b) (bw r))"
  using assms
proof (induction xs)
  case Nil
  then show ?case by simp
next
  case (Cons x xs)
  have kx: "bw x \<noteq> NaN" using Cons.prems by auto
  show ?case
  proof (cases "xs = []")
    case True
    have "array_sort compare_bandwidth (x # xs) = x # []" "x # xs = [] @ x # []"
      using True by (simp_all add: array_sort_def)
    then show ?thesis by fastforce
  next
    case False
    then obtain b rest pre post where ih: "array_sort compare_bandwidth xs = b # rest" "xs = pre @ b # post"
        "\<forall>r \<in> set pre. num_less (bw r) (bw b)" "\<forall>r \<in> set post. \<not> num_less (bw b) (bw r)"
      using Cons by auto
    have "b \<in> set xs" using ih(2) by simp
    then have kb: "bw b \<noteq> NaN" using Cons.prems by auto
    show ?thesis
    proof (cases "num_less (bw x) (bw b)")
      case True
      have "array_sort compare_bandwidth (x # xs) = b # sort_insert compare_bandwidth x rest"
        using True ih(1) sort_insert_parsed [OF kx kb] by (simp add: array_sort_Cons)
      moreover have "x # xs = (x # pre) @ b # post" using ih(2) by simp
      moreover have "\<forall>r \<in> set (x # pre). num_less (bw r) (bw b)"
        using True ih(3) by simp
      ultimately show ?thesis using ih(4) by blast
    next
      case nl: False
      have "array_sort compare_bandwidth (x # xs) = x # b # rest"
        using nl ih(1) sort_insert_parsed [OF kx kb] by (simp add: array_sort_Cons)
      moreover have "x # xs = [] @ x # xs" by simp
      moreover have "\<forall>r \<in> set xs. \<not> num_less (bw x) (bw r)"
      proof
        fix r
        assume "r \<in> set xs"
        then consider "r \<in> set pre" | "r = b" | "r \<in> set post"
          using ih(2) by auto
        then show "\<not> num_less (bw x) (bw r)"
        proof cases
          case 1
          then have "num_less (bw r) (bw b)" using ih(3) by simp
          then show ?thesis using nl num_less_trans by blast
        next
          case 2
          then show ?thesis using nl by simp
        next
          case 3
          then have "\<not> num_less (bw b) (bw r)" using ih(4) by simp
          then show ?thesis using nl kb num_not_less_trans by blast
        qed
      qed
      ultimately show ?thesis by (metis empty_iff list.set(1))
    qed
  qed
qed

text \<open>
  Claim C6, as amended. Bandwidths are compared as the numbers that \<^verbatim>\<open>parseInt\<close> gives, which
  are exact up to \<open>2 ^ 53\<close> and rounded beyond; a missing or empty attribute counts as 0. For
  a non-empty list of representations none of whose bandwidths is \<^verbatim>\<open>NaN\<close>, the representation
  chosen has the maximum bandwidth (no representation of the list has a greater one) and is
  the first of the list with that bandwidth: every representation before it has a strictly
  smaller one. Sorting the sorted array again (a repeated call on the same array) chooses
  the same representation.
\<close>

theorem pickBestRepresentation_first_max:
  assumes "reprs \<noteq> []" and "\<forall>r \<in> set reprs. bw r \<noteq> NaN"
  shows "\<exists>best pre post. pickBestRepresentation reprs = Inr best \<and> reprs = pre @ best # post
           \<and> (\<forall>r \<in> set pre. num_less (bw r) (bw best))
           \<and> (\<forall>r \<in> set post. \<not> num_less (bw best) (bw r))
           \<and> (\<forall>r \<in> set reprs. \<not> num_less (bw best) (bw r))
           \<and> pickBestRepresentation (array_sort compare_bandwidth reprs) = Inr best"
proof -
  obtain b rest pre post where h: "array_sort compare_bandwidth reprs = b # rest" "reprs = pre @ b # post"
      "\<forall>r \<in> set pre. num_less (bw r) (bw b)" "\<forall>r \<in> set post. \<not> num_less (bw b) (bw r)"
    using first_max_head [OF assms(2,1)] by blast
  have mx: "\<forall>r \<in> set reprs. \<not> num_less (bw b) (bw r)"
  proof
    fix r
    assume "r \<in> set reprs"
    then consider "r \<in> set pre" | "r = b" | "r \<in> set post"
      using h(2) by auto
    then show "\<not> num_less (bw b) (bw r)"
    proof cases
      case 1
      then have "num_less (bw r) (bw b)" using h(3) by simp
      then show ?thesis using num_less_trans num_less_irrefl by blast
    next
      case 2
      then show ?thesis by (simp add: num_less_irrefl)
    next
      case 3
      then show ?thesis using h(4) by simp
    qed
  qed
  let ?ys = "array_sort compare_bandwidth reprs"
  have ys: "?ys \<noteq> []" "\<forall>r \<in> set ?ys. bw r \<noteq> NaN"
    using h(1) assms(2) set_array_sort [of compare_bandwidth reprs] by simp_all
  obtain b' rest' pre' post' where h': "array_sort compare_bandwidth ?ys = b' # rest'" "?ys = pre' @ b' # post'"
      "\<forall>r \<in> set pre'. num_less (bw r) (bw b')"
    using first_max_head [OF ys(2,1)] by blast
  have "b' \<in> set ?ys" using h'(2) by simp
  then have le: "\<not> num_less (bw b) (bw b')"
    using mx by (simp add: set_array_sort)
  have "pre' = []"
  proof (cases pre')
    case Nil
    then show ?thesis .
  next
    case (Cons p ps)
    then have "p = b" using h(1) h'(2) by simp
    then have "num_less (bw b) (bw b')" using h'(3) Cons by simp
    then show ?thesis using le by simp
  qed
  then have "b' = b" using h(1) h'(2) by simp
  then have "pickBestRepresentation ?ys = Inr b"
    using h'(1) by (simp add: pickBestRepresentation_def)
  moreover have "pickBestRepresentation reprs = Inr b"
    using h(1) by (simp add: pickBestRepresentation_def)
  ultimately show ?thesis
    using h(2,3,4) mx by blast
qed

lemma bw_values:
  "bw (bw_repr i (Some ''500'')) = Finite 500" "bw (bw_repr i (Some ''900'')) = Finite 900"
  "bw (bw_repr i None) = Finite 0" "bw (bw_repr i (Some ''abc'')) = NaN"
  "bw (bw_repr i (Some ''200'')) = Finite 200"
  by (simp_all add: bw_def bw_repr_def or_default_def parse_eval)

text \<open>An instance with a missing bandwidth and two representations sharing the maximum.\<close>

theorem pickBestRepresentation_first_max_witness:
  "pickBestRepresentation [bw_repr ''a'' (Some ''500''), bw_repr ''b'' (Some ''900''),
       bw_repr ''c'' None, bw_repr ''d'' (Some ''900'')] = Inr (bw_repr ''b'' (Some ''900''))"
  using pickBestRepresentation_first_max [of "[bw_repr ''a'' (Some ''500''), bw_repr ''b'' (Some ''900''),
       bw_repr ''c'' None, bw_repr ''d'' (Some ''900'')]"]
  by (simp add: pickBestRepresentation_def array_sort_def compare_bandwidth_def bw_values num_sub_def
      to_number_small)

text \<open>
  Claim C6 as stated fails for an unparseable bandwidth: \<^verbatim>\<open>parseInt\<close> gives \<^verbatim>\<open>NaN\<close>, the
  comparator gives \<^verbatim>\<open>NaN\<close>, the sort treats the two elements as equal and keeps their order, so
  the representation with bandwidth \<^verbatim>\<open>abc\<close> is chosen over the one with bandwidth 200. On two
  elements this comparator is consistent, so every conforming sort gives this order.
\<close>

theorem pickBestRepresentation_unparseable_counterexample:
  "bw (bw_repr ''a'' (Some ''abc'')) = NaN \<and> bw (bw_repr ''b'' (Some ''200'')) = Finite 200
   \<and> pickBestRepresentation [bw_repr ''a'' (Some ''abc''), bw_repr ''b'' (Some ''200'')]
       = Inr (bw_repr ''a'' (Some ''abc''))"
  by (simp add: pickBestRepresentation_def array_sort_def compare_bandwidth_def bw_values num_sub_def)

text \<open>
  The bandwidths \<open>2 ^ 53\<close> and \<open>2 ^ 53 + 1\<close> are the same number, so the first-listed of the
  two representations is chosen.
\<close>

lemma pickBestRepresentation_rounded:
  "bw (bw_repr ''a'' (Some ''9007199254740992'')) = Finite 9007199254740992
   \<and> bw (bw_repr ''b'' (Some ''9007199254740993'')) = Finite 9007199254740992
   \<and> pickBestRepresentation [bw_repr ''a'' (Some ''9007199254740992''),
         bw_repr ''b'' (Some ''9007199254740993'')]
       = Inr (bw_repr ''a'' (Some ''9007199254740992''))"
proof -
  have b: "bitlen 9007199254740993 = Suc 53"
    by (rule bitlen_eq) simp_all
  have "round_mantissa 9007199254740993 = 9007199254740992"
    by (simp add: round_mantissa_def b)
  then have t: "to_number 9007199254740993 = Finite 9007199254740992"
    by (simp add: to_number_def)
  have d: "digits_value ''9007199254740993'' = 9007199254740993"
      "digits_value ''9007199254740992'' = 9007199254740992"
    by (simp_all add: digits_value_def digit_val_def)
  have 1: "bw (bw_repr ''a'' (Some ''9007199254740992'')) = Finite 9007199254740992"
    by (simp add: bw_def bw_repr_def or_default_def parseInt_def is_space_def is_digit_def d to_number_small)
  have 2: "bw (bw_repr ''b'' (Some ''9007199254740993'')) = Finite 9007199254740992"
    by (simp add: bw_def bw_repr_def or_default_def parseInt_def is_space_def is_digit_def d t)
  have "pickBestRepresentation [bw_repr ''a'' (Some ''9007199254740992''),
         bw_repr ''b'' (Some ''9007199254740993'')]
       = Inr (bw_repr ''a'' (Some ''9007199254740992''))"
    by (simp add: pickBestRepresentation_def array_sort_def compare_bandwidth_def 1 2 num_sub_def
        to_number_small)
  then show ?thesis
    using 1 2 by simp
qed

section \<open>Adaptation sets tagged by content type\<close>

lemma find_filter_eq: "find P xs = (case filter P xs of [] \<Rightarrow> None | x # _ \<Rightarrow> Some x)"
  by (induction xs) auto

lemma filter_singleton_perm:
  assumes "filter P xs = [v]" and "mset ys = mset xs"
  shows "filter P ys = [v]"
proof -
  have "mset (filter P ys) = mset (filter P xs)"
    using assms(2) by (metis mset_filter)
  then have "mset (filter P ys) = {#v#}"
    using assms(1) by simp
  then show ?thesis
    by (metis mset_single_iff_right)
qed

text \<open>
  Claim C7. When exactly one adaptation set of a sequence has a \<^verbatim>\<open>contentType\<close> that equals
  \<^verbatim>\<open>video\<close> up to case, and exactly one has a \<^verbatim>\<open>contentType\<close> that equals \<^verbatim>\<open>audio\<close> up to case,
  then for every reordering of the sequence \<open>findVideoAdaptationSet\<close> returns the former and
  \<open>findAudioAdaptationSet\<close> the latter.
\<close>

theorem tagged_sets_selected:
  assumes "filter (content_type_is ''video'') sets = [v]"
    and "filter (content_type_is ''audio'') sets = [a]"
    and "mset reordered = mset sets"
  shows "findVideoAdaptationSet reordered = Inr (Some v) \<and> findAudioAdaptationSet reordered = Inr (Some a)"
proof -
  have "filter (content_type_is ''video'') reordered = [v]"
    using assms(1,3) by (rule filter_singleton_perm)
  moreover have "filter (content_type_is ''audio'') reordered = [a]"
    using assms(2,3) by (rule filter_singleton_perm)
  ultimately show ?thesis
    by (simp add: findVideoAdaptationSet_def findAudioAdaptationSet_def find_filter_eq)
qed

lemma content_type_examples:
  "content_type_is ''video'' (tagged_set (Some ''Video'') i)"
  "\<not> content_type_is ''audio'' (tagged_set (Some ''Video'') i)"
  "content_type_is ''audio'' (tagged_set (Some ''AUDIO'') i)"
  "\<not> content_type_is ''video'' (tagged_set (Some ''AUDIO'') i)"
  "\<not> content_type_is ''video'' (tagged_set None i)"
  "\<not> content_type_is ''audio'' (tagged_set None i)"
  by (simp_all add: content_type_is_def tagged_set_def toLowerCase_def or_default_def char_of_eq_iff)

text \<open>An instance: the sets listed audio first, with mixed-case tags.\<close>

theorem tagged_sets_selected_witness:
  "findVideoAdaptationSet [tagged_set (Some ''AUDIO'') ''a'', tagged_set None ''x'', tagged_set (Some ''Video'') ''v'']
     = Inr (Some (tagged_set (Some ''Video'') ''v''))
   \<and> findAudioAdaptationSet [tagged_set (Some ''AUDIO'') ''a'', tagged_set None ''x'', tagged_set (Some ''Video'') ''v'']
     = Inr (Some (tagged_set (Some ''AUDIO'') ''a''))"
  using tagged_sets_selected [of
      "[tagged_set (Some ''Video'') ''v'', tagged_set None ''x'', tagged_set (Some ''AUDIO'') ''a'']"
      "tagged_set (Some ''Video'') ''v''" "tagged_set (Some ''AUDIO'') ''a''"
      "[tagged_set (Some ''AUDIO'') ''a'', tagged_set None ''x'', tagged_set (Some ''Video'') ''v'']"]
  by (simp add: content_type_examples)

section \<open>Merging video and audio\<close>

lemma unlinkSync_removes:
  "\<not> unlink_fails w p \<Longrightarrow> p \<notin> dom (files (snd (unlinkSync w p st)))"
  by (simp add: unlinkSync_def)

lemma unlinkSync_keeps_absent:
  "q \<notin> dom (files st) \<Longrightarrow> q \<notin> dom (files (snd (unlinkSync w p st)))"
  by (simp add: unlinkSync_def)

lemma unlinkSync_execs: "execs (snd (unlinkSync w p st)) = execs st"
  by (simp add: unlinkSync_def)

lemma try_block_execs:
  "execs (case execSync_ffmpeg w outPath st of (Inl e, s) \<Rightarrow> s | (Inr u, s) \<Rightarrow> snd (statSync outPath s))
     = execs st @ [outPath]"
  by (simp add: execSync_ffmpeg_def statSync_def Let_def split: prod.splits)

lemma mergeDashVideoAudio_written:
  assumes "\<not> write_fails w ''temp_video.mp4''" and "\<not> write_fails w ''temp_audio.mp4''"
  shows "mergeDashVideoAudio w videoBuf audioBuf outPath st =
     (Inr (),
      snd (unlinkSync w ''temp_audio.mp4'' (snd (unlinkSync w ''temp_video.mp4''
        (case execSync_ffmpeg w outPath
                (st\<lparr>files := (files st)(''temp_video.mp4'' \<mapsto> videoBuf, ''temp_audio.mp4'' \<mapsto> audioBuf)\<rparr>) of
           (Inl e, s) \<Rightarrow> s
         | (Inr u, s) \<Rightarrow> snd (statSync outPath s))))))"
  using assms by (simp add: mergeDashVideoAudio_def writeFileSync_def Let_def)

lemma mergeDashVideoAudio_deletes:
  assumes "\<not> write_fails w ''temp_video.mp4''" and "\<not> write_fails w ''temp_audio.mp4''"
  shows "(\<not> unlink_fails w ''temp_video.mp4'' \<longrightarrow>
            ''temp_video.mp4'' \<notin> dom (files (snd (mergeDashVideoAudio w videoBuf audioBuf outPath st))))
       \<and> (\<not> unlink_fails w ''temp_audio.mp4'' \<longrightarrow>
            ''temp_audio.mp4'' \<notin> dom (files (snd (mergeDashVideoAudio w videoBuf audioBuf outPath st))))"
proof -
  let ?s3 = "case execSync_ffmpeg w outPath
                (st\<lparr>files := (files st)(''temp_video.mp4'' \<mapsto> videoBuf, ''temp_audio.mp4'' \<mapsto> audioBuf)\<rparr>) of
           (Inl e, s) \<Rightarrow> s
         | (Inr u, s) \<Rightarrow> snd (statSync outPath s)"
  have st': "snd (mergeDashVideoAudio w videoBuf audioBuf outPath st) =
      snd (unlinkSync w ''temp_audio.mp4'' (snd (unlinkSync w ''temp_video.mp4'' ?s3)))"
    using mergeDashVideoAudio_written [OF assms, of videoBuf audioBuf outPath st] by simp
  have a: "''temp_audio.mp4'' \<notin> dom (files (snd (mergeDashVideoAudio w videoBuf audioBuf outPath st)))"
    if "\<not> unlink_fails w ''temp_audio.mp4''"
    unfolding st' using that by (rule unlinkSync_removes)
  have v: "''temp_video.mp4'' \<notin> dom (files (snd (mergeDashVideoAudio w videoBuf audioBuf outPath st)))"
    if "\<not> unlink_fails w ''temp_video.mp4''"
    unfolding st' using that by (intro unlinkSync_keeps_absent unlinkSync_removes)
  show ?thesis
    using a v by blast
qed

text \<open>
  Claim C8 fails on the exit path on which the second write throws. The two writes stand
  before the \<^verbatim>\<open>try\<close>, so the exception leaves the function without reaching the \<^verbatim>\<open>finally\<close>
  clause: whenever the write of \<^verbatim>\<open>temp_video.mp4\<close> succeeds and the write of \<^verbatim>\<open>temp_audio.mp4\<close>
  throws, the call throws that exception, \<^verbatim>\<open>ffmpeg\<close> is not run, and \<^verbatim>\<open>temp_video.mp4\<close>, which the
  call has written, is left behind.
\<close>

theorem temp_file_left_behind:
  assumes "\<not> write_fails w ''temp_video.mp4''" and "write_fails w ''temp_audio.mp4''"
  shows "mergeDashVideoAudio w videoBuf audioBuf outPath st
           = (Inl (Fs_error ''temp_audio.mp4''), st\<lparr>files := (files st)(''temp_video.mp4'' \<mapsto> videoBuf)\<rparr>)
       \<and> files (snd (mergeDashVideoAudio w videoBuf audioBuf outPath st)) ''temp_video.mp4'' = Some videoBuf"
  using assms by (simp add: mergeDashVideoAudio_def writeFileSync_def)

text \<open>An instance in which the write of \<^verbatim>\<open>temp_audio.mp4\<close> throws.\<close>

theorem temp_file_left_behind_witness:
  "mergeDashVideoAudio audio_write_fails_world [1, 2] [3] ''out/p.mp4'' init_state
     = (Inl (Fs_error ''temp_audio.mp4''), init_state\<lparr>files := [''temp_video.mp4'' \<mapsto> [1, 2]]\<rparr>)
   \<and> files (snd (mergeDashVideoAudio audio_write_fails_world [1, 2] [3] ''out/p.mp4'' init_state))
       ''temp_video.mp4'' = Some [1, 2]"
  using temp_file_left_behind [of audio_write_fails_world "[1, 2]" "[3]" "''out/p.mp4''" init_state]
  by (simp add: audio_write_fails_world_def exact_world_def init_state_def)

text \<open>
  On the paths through the \<^verbatim>\<open>try\<close> block the clean-up does run: once both files are written,
  each of them is gone after the call unless its \<^verbatim>\<open>unlinkSync\<close> itself throws, whatever
  \<^verbatim>\<open>ffmpeg\<close> did.
\<close>

lemma temp_files_deleted:
  assumes "\<not> write_fails w ''temp_video.mp4''" and "\<not> write_fails w ''temp_audio.mp4''"
    and "\<not> unlink_fails w ''temp_video.mp4''" and "\<not> unlink_fails w ''temp_audio.mp4''"
    and "(res, st') = mergeDashVideoAudio w videoBuf audioBuf outPath st"
  shows "''temp_video.mp4'' \<notin> dom (files st') \<and> ''temp_audio.mp4'' \<notin> dom (files st')"
proof -
  have "st' = snd (mergeDashVideoAudio w videoBuf audioBuf outPath st)"
    using assms(5) by (metis snd_conv)
  then show ?thesis
    using mergeDashVideoAudio_deletes [OF assms(1,2), of videoBuf audioBuf outPath st] assms(3,4)
    by simp
qed

text \<open>
  A failure of \<^verbatim>\<open>unlinkSync\<close> is dropped by the empty \<^verbatim>\<open>catch\<close> around it, and the file stays.
\<close>

lemma temp_file_left_unlink_fails:
  "mergeDashVideoAudio video_unlink_fails_world [1, 2] [3] ''out/p.mp4'' init_state
     = (Inr (), init_state\<lparr>files := [''temp_video.mp4'' \<mapsto> [1, 2]], execs := [''out/p.mp4'']\<rparr>)"
  by (simp add: mergeDashVideoAudio_def writeFileSync_def execSync_ffmpeg_def statSync_def unlinkSync_def
      video_unlink_fails_world_def exact_world_def init_state_def fun_upd_twist)

text \<open>
  Claim C9, as amended. When both temporary files have been written, \<open>mergeDashVideoAudio\<close>
  runs \<^verbatim>\<open>ffmpeg\<close> exactly once and returns normally whatever its exit status is: on a non-zero
  exit \<^verbatim>\<open>execSync\<close> throws, and the exception is caught inside the function and not passed
  to the caller. Each of the two temporary files is gone after the call, unless its
  \<^verbatim>\<open>unlinkSync\<close> throws.
\<close>

theorem ffmpeg_failure_swallowed:
  assumes "\<not> write_fails w ''temp_video.mp4''" and "\<not> write_fails w ''temp_audio.mp4''"
    and "st2 = st\<lparr>files := (files st)(''temp_video.mp4'' \<mapsto> videoBuf, ''temp_audio.mp4'' \<mapsto> audioBuf)\<rparr>"
    and "st' = snd (mergeDashVideoAudio w videoBuf audioBuf outPath st)"
  shows "(fst (ffmpeg w (files st2) outPath) \<noteq> 0 \<longrightarrow>
            fst (execSync_ffmpeg w outPath st2) = Inl (Exec_error (fst (ffmpeg w (files st2) outPath))))
       \<and> fst (mergeDashVideoAudio w videoBuf audioBuf outPath st) = Inr ()
       \<and> execs st' = execs st @ [outPath]
       \<and> (\<not> unlink_fails w ''temp_video.mp4'' \<longrightarrow> ''temp_video.mp4'' \<notin> dom (files st'))
       \<and> (\<not> unlink_fails w ''temp_audio.mp4'' \<longrightarrow> ''temp_audio.mp4'' \<notin> dom (files st'))"
proof -
  have 1: "fst (ffmpeg w (files st2) outPath) \<noteq> 0 \<longrightarrow>
            fst (execSync_ffmpeg w outPath st2) = Inl (Exec_error (fst (ffmpeg w (files st2) outPath)))"
    by (simp add: execSync_ffmpeg_def Let_def split: prod.splits)
  have 2: "fst (mergeDashVideoAudio w videoBuf audioBuf outPath st) = Inr ()"
    using mergeDashVideoAudio_written [OF assms(1,2), of videoBuf audioBuf outPath st] by simp
  have "execs st' = execs st2 @ [outPath]"
    unfolding assms(4) mergeDashVideoAudio_written [OF assms(1,2)] assms(3)
    by (simp only: snd_conv unlinkSync_execs try_block_execs)
  then have 3: "execs st' = execs st @ [outPath]"
    by (simp add: assms(3))
  have 4: "(\<not> unlink_fails w ''temp_video.mp4'' \<longrightarrow> ''temp_video.mp4'' \<notin> dom (files st'))
       \<and> (\<not> unlink_fails w ''temp_audio.mp4'' \<longrightarrow> ''temp_audio.mp4'' \<notin> dom (files st'))"
    unfolding assms(4) using assms(1,2) by (rule mergeDashVideoAudio_deletes)
  show ?thesis
    by (rule conjI [OF 1 conjI [OF 2 conjI [OF 3 4]]])
qed

text \<open>An instance in which \<^verbatim>\<open>ffmpeg\<close> exits with status 1.\<close>

theorem ffmpeg_failure_swallowed_witness:
  "fst (ffmpeg failing_ffmpeg_world [''temp_video.mp4'' \<mapsto> [1, 2], ''temp_audio.mp4'' \<mapsto> [3]] ''out/p.mp4'') = 1
   \<and> fst (execSync_ffmpeg failing_ffmpeg_world ''out/p.mp4''
         (init_state\<lparr>files := [''temp_video.mp4'' \<mapsto> [1, 2], ''temp_audio.mp4'' \<mapsto> [3]]\<rparr>))
       = Inl (Exec_error 1)
   \<and> fst (mergeDashVideoAudio failing_ffmpeg_world [1, 2] [3] ''out/p.mp4'' init_state) = Inr ()
   \<and> execs (snd (mergeDashVideoAudio failing_ffmpeg_world [1, 2] [3] ''out/p.mp4'' init_state)) = [''out/p.mp4'']
   \<and> ''temp_video.mp4'' \<notin> dom (files (snd (mergeDashVideoAudio failing_ffmpeg_world [1, 2] [3] ''out/p.mp4'' init_state)))
   \<and> ''temp_audio.mp4'' \<notin> dom (files (snd (mergeDashVideoAudio failing_ffmpeg_world [1, 2] [3] ''out/p.mp4'' init_state)))"
  using ffmpeg_failure_swallowed [where w = failing_ffmpeg_world and videoBuf = "[1, 2]" and audioBuf = "[3]"
      and outPath = "''out/p.mp4''" and st = init_state, OF _ _ refl refl]
  by (simp add: failing_ffmpeg_world_def exact_world_def init_state_def)

text \<open>
  Claim C9 as stated fails: \<^verbatim>\<open>execSync\<close> throws on the exit status 1, and the call of
  \<open>mergeDashVideoAudio\<close> around it returns the same value as a call in which \<^verbatim>\<open>ffmpeg\<close>
  succeeds.
\<close>

theorem ffmpeg_failure_counterexample:
  "execSync_ffmpeg failing_ffmpeg_world ''out/p.mp4''
       (init_state\<lparr>files := [''temp_video.mp4'' \<mapsto> [1, 2], ''temp_audio.mp4'' \<mapsto> [3]]\<rparr>)
     = (Inl (Exec_error 1),
        init_state\<lparr>files := [''temp_video.mp4'' \<mapsto> [1, 2], ''temp_audio.mp4'' \<mapsto> [3]], execs := [''out/p.mp4'']\<rparr>)
   \<and> mergeDashVideoAudio failing_ffmpeg_world [1, 2] [3] ''out/p.mp4'' init_state
     = (Inr (), init_state\<lparr>execs := [''out/p.mp4'']\<rparr>)
   \<and> fst (mergeDashVideoAudio exact_world [1, 2] [3] ''out/p.mp4'' init_state) = Inr ()"
  by (simp add: mergeDashVideoAudio_def writeFileSync_def execSync_ffmpeg_def statSync_def unlinkSync_def
      failing_ffmpeg_world_def exact_world_def init_state_def)

section \<open>Image leaves\<close>

lemma foldl_widest:
  "foldl (\<lambda>acc cur. if config_width cur > config_width acc then cur else acc) a xs = b \<Longrightarrow>
   (b = a \<and> (\<forall>x \<in> set xs. config_width x \<le> config_width a))
   \<or> (\<exists>pre post. xs = pre @ b # post \<and> config_width a < config_width b
        \<and> (\<forall>x \<in> set pre. config_width x < config_width b)
        \<and> (\<forall>x \<in> set post. config_width x \<le> config_width b))"
proof (induction xs arbitrary: a)
  case Nil
  then show ?case by simp
next
  case (Cons x xs)
  show ?case
  proof (cases "config_width x > config_width a")
    case True
    then have f: "foldl (\<lambda>acc cur. if config_width cur > config_width acc then cur else acc) x xs = b"
      using Cons.prems by simp
    from Cons.IH [OF f] show ?thesis
    proof
      assume "b = x \<and> (\<forall>y \<in> set xs. config_width y \<le> config_width x)"
      then have "x # xs = [] @ b # xs \<and> config_width a < config_width b
          \<and> (\<forall>y \<in> set []. config_width y < config_width b)
          \<and> (\<forall>y \<in> set xs. config_width y \<le> config_width b)"
        using True by simp
      then show ?thesis by blast
    next
      assume "\<exists>pre post. xs = pre @ b # post \<and> config_width x < config_width b
          \<and> (\<forall>y \<in> set pre. config_width y < config_width b)
          \<and> (\<forall>y \<in> set post. config_width y \<le> config_width b)"
      then obtain pre post where p: "xs = pre @ b # post" "config_width x < config_width b"
          "\<forall>y \<in> set pre. config_width y < config_width b"
          "\<forall>y \<in> set post. config_width y \<le> config_width b"
        by blast
      have "x # xs = (x # pre) @ b # post \<and> config_width a < config_width b
          \<and> (\<forall>y \<in> set (x # pre). config_width y < config_width b)
          \<and> (\<forall>y \<in> set post. config_width y \<le> config_width b)"
        using p True by simp
      then show ?thesis by blast
    qed
  next
    case False
    then have f: "foldl (\<lambda>acc cur. if config_width cur > config_width acc then cur else acc) a xs = b"
      using Cons.prems by simp
    from Cons.IH [OF f] show ?thesis
    proof
      assume "b = a \<and> (\<forall>y \<in> set xs. config_width y \<le> config_width a)"
      then show ?thesis using False by simp
    next
      assume "\<exists>pre post. xs = pre @ b # post \<and> config_width a < config_width b
          \<and> (\<forall>y \<in> set pre. config_width y < config_width b)
          \<and> (\<forall>y \<in> set post. config_width y \<le> config_width b)"
      then obtain pre post where p: "xs = pre @ b # post" "config_width a < config_width b"
          "\<forall>y \<in> set pre. config_width y < config_width b"
          "\<forall>y \<in> set post. config_width y \<le> config_width b"
        by blast
      have "x # xs = (x # pre) @ b # post \<and> config_width a < config_width b
          \<and> (\<forall>y \<in> set (x # pre). config_width y < config_width b)
          \<and> (\<forall>y \<in> set post. config_width y \<le> config_width b)"
        using p False by simp
      then show ?thesis by blast
    qed
  qed
qed

lemma best_resource_first_max:
  "\<exists>best pre post. best_resource (r # rs) = Inr best \<and> r # rs = pre @ best # post
     \<and> (\<forall>x \<in> set pre. config_width x < config_width best)
     \<and> (\<forall>x \<in> set post. config_width x \<le> config_width best)"
proof -
  let ?b = "foldl (\<lambda>acc cur. if config_width cur > config_width acc then cur else acc) r rs"
  have b: "best_resource (r # rs) = Inr ?b"
    by (simp add: best_resource_def)
  from foldl_widest [OF refl, of r rs] show ?thesis
  proof
    assume "?b = r \<and> (\<forall>x \<in> set rs. config_width x \<le> config_width r)"
    then have "best_resource (r # rs) = Inr r \<and> r # rs = [] @ r # rs
        \<and> (\<forall>x \<in> set []. config_width x < config_width r)
        \<and> (\<forall>x \<in> set rs. config_width x \<le> config_width r)"
      using b by simp
    then show ?thesis by blast
  next
    assume "\<exists>pre post. rs = pre @ ?b # post \<and> config_width r < config_width ?b
        \<and> (\<forall>x \<in> set pre. config_width x < config_width ?b)
        \<and> (\<forall>x \<in> set post. config_width x \<le> config_width ?b)"
    then obtain pre post where p: "rs = pre @ ?b # post" "config_width r < config_width ?b"
        "\<forall>x \<in> set pre. config_width x < config_width ?b"
        "\<forall>x \<in> set post. config_width x \<le> config_width ?b"
      by blast
    have "best_resource (r # rs) = Inr ?b \<and> r # rs = (r # pre) @ ?b # post
        \<and> (\<forall>x \<in> set (r # pre). config_width x < config_width ?b)
        \<and> (\<forall>x \<in> set post. config_width x \<le> config_width ?b)"
      using b p by simp
    then show ?thesis by blast
  qed
qed

lemma extract_leaf_image:
  "extract_leaf w (Item v d u (Some (r # rs)) None) folderName postName st =
     (case extract_leaf w (Item v d u None None) folderName postName st of
        (Inl err, st1) \<Rightarrow> (Inl err, st1)
      | (Inr n, st1) \<Rightarrow>
          (case downloadHighestResImage w (r # rs) folderName (postName @ ''.jpg'') st1 of
             (Inl err, st2) \<Rightarrow> (Inl err, st2)
           | (Inr _, st2) \<Rightarrow> (Inr (n + 1), st2)))"
  by (simp add: extract_leaf_def split: prod.splits sum.splits)

lemma extract_leaf_not_video:
  "extract_leaf w (Item False d u None None) folderName postName st = (Inr 0, st)"
  by (simp add: extract_leaf_def)

text \<open>
  Claim C10, as amended. Take a leaf with one or more display resources, and call video part
  what \<open>extractMediaRecursive\<close> does on the same item without its display resources; for an
  item that is not a video the video part does nothing and returns 0. The resource chosen has
  the maximum width and is the first with that width. When the video part throws, the image
  branch is not reached and the exception is the result. When the video part returns a
  count \<open>n\<close>, the image branch is taken, whether the item is a video or not: the chosen
  resource is requested; when the answer is accepted and the file can be written, the body
  is saved as \<^verbatim>\<open>baseName.jpg\<close> in the folder and the count is \<open>n + 1\<close>; when the answer has a
  status outside 200-299, nothing is saved and the count is \<open>n + 1\<close> all the same; when the
  request is rejected or the file cannot be written, the exception is the result.
\<close>

theorem image_leaf_widest_saved:
  assumes "item = Item v d u (Some (r # rs)) None"
    and "video_part = extractMediaRecursive w (Item v d u None None) folderName postName st"
    and "result = extractMediaRecursive w item folderName postName st"
    and "outPath = path_join w folderName (postName @ ''.jpg'')"
  shows "\<exists>best pre post. r # rs = pre @ best # post
     \<and> (\<forall>x \<in> set pre. config_width x < config_width best)
     \<and> (\<forall>x \<in> set post. config_width x \<le> config_width best)
     \<and> (\<not> v \<longrightarrow> video_part = (Inr 0, st))
     \<and> (\<forall>err st1. video_part = (Inl err, st1) \<longrightarrow> result = (Inl err, st1))
     \<and> (\<forall>n st1. video_part = (Inr n, st1) \<longrightarrow>
           requests (snd result) = requests st1 @ [(src best, None)]
         \<and> (\<forall>c body. nodeFetch w (requests st1) (src best, None) = Response c body \<and> ok c
                 \<and> \<not> write_fails w outPath \<longrightarrow>
               result = (Inr (n + 1), st1\<lparr>requests := requests st1 @ [(src best, None)],
                                           files := (files st1)(outPath \<mapsto> body)\<rparr>))
         \<and> (\<forall>c body. nodeFetch w (requests st1) (src best, None) = Response c body \<and> \<not> ok c \<longrightarrow>
               result = (Inr (n + 1), st1\<lparr>requests := requests st1 @ [(src best, None)]\<rparr>))
         \<and> (\<forall>c body. nodeFetch w (requests st1) (src best, None) = Response c body \<and> ok c
                 \<and> write_fails w outPath \<longrightarrow>
               result = (Inl (Fs_error outPath), st1\<lparr>requests := requests st1 @ [(src best, None)]\<rparr>))
         \<and> (nodeFetch w (requests st1) (src best, None) = Rejected \<longrightarrow>
               result = (Inl Fetch_rejected, st1\<lparr>requests := requests st1 @ [(src best, None)]\<rparr>)))"
proof -
  obtain best pre post where b: "best_resource (r # rs) = Inr best" "r # rs = pre @ best # post"
      "\<forall>x \<in> set pre. config_width x < config_width best"
      "\<forall>x \<in> set post. config_width x \<le> config_width best"
    using best_resource_first_max by blast
  have vp: "video_part = extract_leaf w (Item v d u None None) folderName postName st"
    by (simp add: assms(2))
  have res: "result =
     (case video_part of
        (Inl err, st1) \<Rightarrow> (Inl err, st1)
      | (Inr n, st1) \<Rightarrow>
          (case downloadHighestResImage w (r # rs) folderName (postName @ ''.jpg'') st1 of
             (Inl err, st2) \<Rightarrow> (Inl err, st2)
           | (Inr _, st2) \<Rightarrow> (Inr (n + 1), st2)))"
    unfolding vp assms(3) assms(1) by (simp only: extractMediaRecursive.simps extract_leaf_image)
  have 1: "\<not> v \<longrightarrow> video_part = (Inr 0, st)"
    unfolding vp by (simp add: extract_leaf_not_video)
  have 2: "\<forall>err st1. video_part = (Inl err, st1) \<longrightarrow> result = (Inl err, st1)"
    unfolding res by simp
  have 3: "\<forall>n st1. video_part = (Inr n, st1) \<longrightarrow>
           requests (snd result) = requests st1 @ [(src best, None)]
         \<and> (\<forall>c body. nodeFetch w (requests st1) (src best, None) = Response c body \<and> ok c
                 \<and> \<not> write_fails w outPath \<longrightarrow>
               result = (Inr (n + 1), st1\<lparr>requests := requests st1 @ [(src best, None)],
                                           files := (files st1)(outPath \<mapsto> body)\<rparr>))
         \<and> (\<forall>c body. nodeFetch w (requests st1) (src best, None) = Response c body \<and> \<not> ok c \<longrightarrow>
               result = (Inr (n + 1), st1\<lparr>requests := requests st1 @ [(src best, None)]\<rparr>))
         \<and> (\<forall>c body. nodeFetch w (requests st1) (src best, None) = Response c body \<and> ok c
                 \<and> write_fails w outPath \<longrightarrow>
               result = (Inl (Fs_error outPath), st1\<lparr>requests := requests st1 @ [(src best, None)]\<rparr>))
         \<and> (nodeFetch w (requests st1) (src best, None) = Rejected \<longrightarrow>
               result = (Inl Fetch_rejected, st1\<lparr>requests := requests st1 @ [(src best, None)]\<rparr>))"
  proof (intro allI impI)
    fix n and st1 :: state
    assume v: "video_part = (Inr n, st1)"
    have r: "result =
          (case downloadHighestResImage w (r # rs) folderName (postName @ ''.jpg'') st1 of
             (Inl err, st2) \<Rightarrow> (Inl err, st2)
           | (Inr _, st2) \<Rightarrow> (Inr (n + 1), st2))"
      unfolding res v by simp
    show "requests (snd result) = requests st1 @ [(src best, None)]
         \<and> (\<forall>c body. nodeFetch w (requests st1) (src best, None) = Response c body \<and> ok c
                 \<and> \<not> write_fails w outPath \<longrightarrow>
               result = (Inr (n + 1), st1\<lparr>requests := requests st1 @ [(src best, None)],
                                           files := (files st1)(outPath \<mapsto> body)\<rparr>))
         \<and> (\<forall>c body. nodeFetch w (requests st1) (src best, None) = Response c body \<and> \<not> ok c \<longrightarrow>
               result = (Inr (n + 1), st1\<lparr>requests := requests st1 @ [(src best, None)]\<rparr>))
         \<and> (\<forall>c body. nodeFetch w (requests st1) (src best, None) = Response c body \<and> ok c
                 \<and> write_fails w outPath \<longrightarrow>
               result = (Inl (Fs_error outPath), st1\<lparr>requests := requests st1 @ [(src best, None)]\<rparr>))
         \<and> (nodeFetch w (requests st1) (src best, None) = Rejected \<longrightarrow>
               result = (Inl Fetch_rejected, st1\<lparr>requests := requests st1 @ [(src best, None)]\<rparr>))"
      unfolding r assms(4)
      by (cases "nodeFetch w (requests st1) (src best, None)")
         (simp_all add: downloadHighestResImage_def b(1) writeFileSync_def Let_def)
  qed
  show ?thesis
    using b(2,3,4) 1 2 3 by blast
qed

lemma decimal_small:
  "decimal 1 = ''1''" "decimal 2 = ''2''" "decimal (Suc 0) = ''1''" "decimal (Suc (Suc 0)) = ''2''"
  by (simp_all add: decimal.simps digit_char_def char_of_eq_iff)

lemma first_max_1080:
  assumes "[display ''http://img/150'' 150, display ''http://img/1080'' 1080, display ''http://img/640'' 640]
      = pre @ best # post"
    and "\<forall>x \<in> set pre. config_width x < config_width best"
    and "\<forall>x \<in> set post. config_width x \<le> config_width best"
  shows "best = display ''http://img/1080'' 1080"
proof (cases pre)
  case Nil
  then show ?thesis using assms by (auto simp: display_def)
next
  case (Cons a pre1)
  show ?thesis
  proof (cases pre1)
    case Nil
    then show ?thesis using assms Cons by (auto simp: display_def)
  next
    case c2: (Cons b pre2)
    show ?thesis
    proof (cases pre2)
      case Nil
      then show ?thesis using assms Cons c2 by (auto simp: display_def)
    next
      case c3: (Cons c pre3)
      then show ?thesis using assms Cons c2 by (auto simp: display_def)
    qed
  qed
qed

text \<open>The instance of the specification: widths 150, 1080 and 640.\<close>

theorem image_leaf_widest_saved_witness:
  "extractMediaRecursive exact_world
      (image_item [display ''http://img/150'' 150, display ''http://img/1080'' 1080, display ''http://img/640'' 640])
      ''out'' ''post'' init_state
     = (Inr 1, init_state\<lparr>requests := [(''http://img/1080'', None)],
                           files := [''out/post.jpg'' \<mapsto> [1, 2, 3]]\<rparr>)"
proof -
  let ?a = "display ''http://img/150'' 150"
  let ?b = "display ''http://img/1080'' 1080"
  let ?c = "display ''http://img/640'' 640"
  let ?res = "extractMediaRecursive exact_world (Item False None None (Some [?a, ?b, ?c]) None)
      ''out'' ''post'' init_state"
  note th = image_leaf_widest_saved [OF refl refl refl refl, where v = False and d = None and u = None
        and r = ?a and rs = "[?b, ?c]" and w = exact_world and folderName = "''out''"
        and postName = "''post''" and st = init_state]
  have vp: "extractMediaRecursive exact_world (Item False None None None None) ''out'' ''post'' init_state
      = (Inr 0, init_state)"
    by (simp add: extract_leaf_def)
  from th obtain best pre post where h: "[?a, ?b, ?c] = pre @ best # post"
      "\<forall>x \<in> set pre. config_width x < config_width best"
      "\<forall>x \<in> set post. config_width x \<le> config_width best"
      "\<forall>c body. nodeFetch exact_world (requests init_state) (src best, None) = Response c body \<and> ok c
                 \<and> \<not> write_fails exact_world (path_join exact_world ''out'' (''post'' @ ''.jpg'')) \<longrightarrow>
               ?res = (Inr (0 + 1), init_state\<lparr>requests := requests init_state @ [(src best, None)],
                      files := (files init_state)(path_join exact_world ''out'' (''post'' @ ''.jpg'') \<mapsto> body)\<rparr>)"
    unfolding vp by (elim exE conjE) (erule allE, erule allE, erule impE, rule refl, elim conjE, rule that)
  have "best = ?b"
    using h(1,2,3) by (rule first_max_1080)
  then show ?thesis
    using h(4) by (simp add: image_item_def exact_world_def init_state_def display_def ok_def)
qed

text \<open>
  Claim C10 as stated fails in its last part: the two branches are not exclusive. A video
  item with a direct URL and a display resource runs both, writes both files and counts 2.
\<close>

theorem video_and_image_counterexample:
  "extractMediaRecursive exact_world (video_item ''http://vid/1'' [display ''http://img/1'' 640])
      ''out'' ''post'' init_state
     = (Inr 2, init_state\<lparr>requests := [(''http://vid/1'', None), (''http://img/1'', None)],
                           files := [''out/post.mp4'' \<mapsto> [1, 2, 3], ''out/post.jpg'' \<mapsto> [1, 2, 3]]\<rparr>)"
  by (simp add: video_item_def extract_leaf_def download_direct_video_def downloadHighestResImage_def
      best_resource_def writeFileSync_def exact_world_def init_state_def display_def ok_def
      truthy_def)

section \<open>Carousels\<close>

lemma extract_edges_abort:
  assumes "extract_edges w pre i c folderName postName st = (Inr c1, st1)"
    and "extractMediaRecursive w child folderName (postName @ ''_'' @ decimal (i + length pre + 1)) st1
           = (Inl err, st2)"
  shows "extract_edges w (pre @ child # rest) i c folderName postName st = (Inl err, st2)"
  using assms
proof (induction pre arbitrary: i c st)
  case Nil
  then show ?case by simp
next
  case (Cons a pre)
  obtain res s where a: "extractMediaRecursive w a folderName (postName @ ''_'' @ decimal (i + 1)) st = (res, s)"
    by (cases "extractMediaRecursive w a folderName (postName @ ''_'' @ decimal (i + 1)) st")
  show ?case
  proof (cases res)
    case (Inl e)
    then show ?thesis using Cons.prems(1) a by simp
  next
    case (Inr n)
    then have "extract_edges w pre (i + 1) (c + n) folderName postName s = (Inr c1, st1)"
      using Cons.prems(1) a by simp
    moreover have "extractMediaRecursive w child folderName
        (postName @ ''_'' @ decimal (i + 1 + length pre + 1)) st1 = (Inl err, st2)"
      using Cons.prems(2) by simp
    ultimately have "extract_edges w (pre @ child # rest) (i + 1) (c + n) folderName postName s = (Inl err, st2)"
      by (rule Cons.IH)
    then show ?thesis using a Inr by simp
  qed
qed

text \<open>
  Claim C1 fails where a child fails. When the children before a child have been processed
  and that child, processed under the name \<^verbatim>\<open>baseName_(i+1)\<close>, throws, then
  \<open>extractMediaRecursive\<close> on the carousel throws the same exception: the count of the
  children before it is lost, and the state is the one the failing child left, so none of
  the children after it is processed, whatever they are.
\<close>

theorem carousel_child_failure_aborts:
  assumes "extractMediaRecursive w (Item v d u r (Some pre)) folderName postName st = (Inr n, st1)"
    and "extractMediaRecursive w child folderName (postName @ ''_'' @ decimal (length pre + 1)) st1
           = (Inl err, st2)"
  shows "extractMediaRecursive w (Item v d u r (Some (pre @ child # rest))) folderName postName st
           = (Inl err, st2)"
proof -
  have "extract_edges w pre 0 0 folderName postName st = (Inr n, st1)"
    using assms(1) by simp
  moreover have "extractMediaRecursive w child folderName (postName @ ''_'' @ decimal (0 + length pre + 1)) st1
           = (Inl err, st2)"
    using assms(2) by simp
  ultimately have "extract_edges w (pre @ child # rest) 0 0 folderName postName st = (Inl err, st2)"
    by (rule extract_edges_abort)
  then show ?thesis by simp
qed

lemmas leaf_eval =
  carousel_def image_item_def extract_leaf_def downloadHighestResImage_def best_resource_def
  writeFileSync_def init_state_def display_def ok_def truthy_def decimal_small

text \<open>
  An instance: a carousel of two images; the request for the first one is rejected, the
  second one is never requested and no total is returned.
\<close>

theorem carousel_child_failure_aborts_witness:
  "extractMediaRecursive first_image_rejected_world
      (carousel [image_item [display ''http://img/1'' 640], image_item [display ''http://img/2'' 640]])
      ''out'' ''post'' init_state
     = (Inl Fetch_rejected, init_state\<lparr>requests := [(''http://img/1'', None)]\<rparr>)"
proof -
  have 1: "extractMediaRecursive first_image_rejected_world (Item False None None None (Some []))
      ''out'' ''post'' init_state = (Inr 0, init_state)"
    by simp
  have 2: "extractMediaRecursive first_image_rejected_world (image_item [display ''http://img/1'' 640])
      ''out'' (''post'' @ ''_'' @ decimal (length ([] :: item list) + 1)) init_state
     = (Inl Fetch_rejected, init_state\<lparr>requests := [(''http://img/1'', None)]\<rparr>)"
    by (simp add: leaf_eval first_image_rejected_world_def exact_world_def)
  show ?thesis
    using carousel_child_failure_aborts [OF 1 2, of "[image_item [display ''http://img/2'' 640]]"]
    by (simp add: carousel_def)
qed

text \<open>
  The branch for a direct video URL of the same function does what the specification asks:
  its \<^verbatim>\<open>try\<close>/\<^verbatim>\<open>catch\<close> drops the failure of the first child, the second child is processed and
  the total counts it alone.
\<close>

lemma carousel_direct_video_failure_continues:
  "extractMediaRecursive first_image_rejected_world
      (carousel [video_item ''http://img/1'' [], image_item [display ''http://img/2'' 640]])
      ''out'' ''post'' init_state
     = (Inr 1, init_state\<lparr>requests := [(''http://img/1'', None), (''http://img/2'', None)],
                           files := [''out/post_2.jpg'' \<mapsto> [7]]\<rparr>)"
  by (simp add: leaf_eval video_item_def download_direct_video_def first_image_rejected_world_def
      exact_world_def)

text \<open>
  When no child throws, the counts add up: when every child \<open>k\<close> (0-based) of a carousel,
  processed under the name \<^verbatim>\<open>baseName_(k+1)\<close>, returns a count \<open>n\<^sub>k\<close>, then
  \<open>extractMediaRecursive\<close> returns the sum of these counts. The predicate \<open>Q k\<close> describes the
  states in which child \<open>k\<close> may start (the state that the children before it left).
\<close>

lemma extract_edges_sum:
  assumes "length ns = length edges"
    and "Q i st"
    and "\<forall>k < length edges. \<forall>s. Q (i + k) s \<longrightarrow> (\<exists>s'.
           extractMediaRecursive w (edges ! k) folderName (postName @ ''_'' @ decimal (i + k + 1)) s
             = (Inr (ns ! k), s') \<and> Q (Suc (i + k)) s')"
  shows "\<exists>st'. extract_edges w edges i downloadCount folderName postName st
           = (Inr (downloadCount + sum_list ns), st') \<and> Q (i + length edges) st'"
  using assms
proof (induction edges arbitrary: ns i downloadCount st)
  case Nil
  then show ?case by simp
next
  case (Cons child rest)
  obtain n ns' where ns: "ns = n # ns'" "length ns' = length rest"
    using Cons.prems(1) by (cases ns) auto
  have "0 < length (child # rest)" by simp
  then have "Q (i + 0) st \<longrightarrow> (\<exists>s'.
      extractMediaRecursive w ((child # rest) ! 0) folderName (postName @ ''_'' @ decimal (i + 0 + 1)) st
        = (Inr (ns ! 0), s') \<and> Q (Suc (i + 0)) s')"
    using Cons.prems(3) by blast
  then obtain s1 where c: "extractMediaRecursive w child folderName (postName @ ''_'' @ decimal (i + 1)) st
      = (Inr n, s1)" "Q (Suc i) s1"
    using Cons.prems(2) ns by auto
  have step: "\<forall>k < length rest. \<forall>s. Q (Suc i + k) s \<longrightarrow> (\<exists>s'.
      extractMediaRecursive w (rest ! k) folderName (postName @ ''_'' @ decimal (Suc i + k + 1)) s
        = (Inr (ns' ! k), s') \<and> Q (Suc (Suc i + k)) s')"
  proof (intro allI impI)
    fix k s assume k: "k < length rest" and q: "Q (Suc i + k) s"
    have "Suc k < length (child # rest)" using k by simp
    then have "Q (i + Suc k) s \<longrightarrow> (\<exists>s'. extractMediaRecursive w ((child # rest) ! Suc k) folderName
        (postName @ ''_'' @ decimal (i + Suc k + 1)) s = (Inr (ns ! Suc k), s') \<and> Q (Suc (i + Suc k)) s')"
      using Cons.prems(3) by blast
    then show "\<exists>s'. extractMediaRecursive w (rest ! k) folderName
        (postName @ ''_'' @ decimal (Suc i + k + 1)) s = (Inr (ns' ! k), s') \<and> Q (Suc (Suc i + k)) s'"
      using ns q by simp
  qed
  obtain st' where "extract_edges w rest (Suc i) (downloadCount + n) folderName postName s1
      = (Inr (downloadCount + n + sum_list ns'), st')" "Q (Suc i + length rest) st'"
    using Cons.IH [OF ns(2) c(2) step, of "downloadCount + n"] by blast
  then show ?case
    using c ns by (simp add: add.assoc)
qed

lemma carousel_sum:
  assumes "length ns = length edges"
    and "Q 0 st"
    and "\<forall>k < length edges. \<forall>s. Q k s \<longrightarrow> (\<exists>s'.
           extractMediaRecursive w (edges ! k) folderName (postName @ ''_'' @ decimal (k + 1)) s
             = (Inr (ns ! k), s') \<and> Q (Suc k) s')"
  shows "\<exists>st'. extractMediaRecursive w (Item v d u r (Some edges)) folderName postName st
            = (Inr (sum_list ns), st') \<and> Q (length edges) st'"
proof -
  have "\<exists>st'. extract_edges w edges 0 0 folderName postName st = (Inr (0 + sum_list ns), st')
      \<and> Q (0 + length edges) st'"
    using assms by (intro extract_edges_sum) simp_all
  then show ?thesis
    by simp
qed

text \<open>Two image leaves are saved as \<^verbatim>\<open>post_1.jpg\<close> and \<^verbatim>\<open>post_2.jpg\<close>, and the total is 2.\<close>

lemma carousel_two_images:
  "extractMediaRecursive exact_world
      (carousel [image_item [display ''http://img/1'' 640], image_item [display ''http://img/2'' 640]])
      ''out'' ''post'' init_state
     = (Inr 2, init_state\<lparr>requests := [(''http://img/1'', None), (''http://img/2'', None)],
                           files := [''out/post_1.jpg'' \<mapsto> [1, 2, 3], ''out/post_2.jpg'' \<mapsto> [1, 2, 3]]\<rparr>)"
  by (simp add: leaf_eval exact_world_def)

text \<open>
  A download answered with status 404 saves no file and is counted all the same.
\<close>

lemma carousel_counts_unsaved_image:
  "extractMediaRecursive first_image_missing_world
      (carousel [image_item [display ''http://img/1'' 640], image_item [display ''http://img/2'' 640]])
      ''out'' ''post'' init_state
     = (Inr 2, init_state\<lparr>requests := [(''http://img/1'', None), (''http://img/2'', None)],
                           files := [''out/post_2.jpg'' \<mapsto> [7]]\<rparr>)"
  by (simp add: leaf_eval first_image_missing_world_def exact_world_def)

section \<open>The DASH pipeline from end to end\<close>

text \<open>
  The scenario of the specification: a manifest with one video set (bandwidth 500000,
  initialization range \<^verbatim>\<open>0-99\<close>, total length 1000) and one audio set (bandwidth 128000,
  range \<^verbatim>\<open>0-49\<close>, total length 500).
\<close>

lemma dash_sets_found:
  "findVideoAdaptationSet dash_sets = Inr (Some dash_video_set)"
  "findAudioAdaptationSet dash_sets = Inr (Some dash_audio_set)"
  by (simp_all add: findVideoAdaptationSet_def findAudioAdaptationSet_def dash_sets_def content_type_is_def
      dash_video_set_def dash_audio_set_def toLowerCase_def or_default_def char_of_eq_iff)

lemma dash_best:
  "pickBestRepresentation (reprs_of dash_video_set) = Inr (dash_repr ''v'' ''500000'' ''0-99'' ''1000'')"
  "pickBestRepresentation (reprs_of dash_audio_set) = Inr (dash_repr ''a'' ''128000'' ''0-49'' ''500'')"
  by (simp_all add: pickBestRepresentation_def reprs_of_def dash_video_set_def dash_audio_set_def array_sort_def)

lemma dash_parses:
  "parseByteRange ''0-99'' = Some (Finite 0, Finite 99)" "parseByteRange ''0-49'' = Some (Finite 0, Finite 49)"
  "parseInt ''1000'' = Finite 1000" "parseInt ''500'' = Finite 500"
  by (simp_all add: parse_eval)

lemma dash_video_assembled:
  "downloadDashRepresentation dash_world (dash_repr ''v'' ''500000'' ''0-99'' ''1000'') init_state
     = (Inr (replicate 100 0 @ replicate 900 0),
        init_state\<lparr>requests := [(''http://cdn/v'', Some (Finite 0, Finite 99)), (''http://cdn/v'', Some (Finite 100, Finite 999))]\<rparr>)"
  by (simp add: downloadDashRepresentation_def downloadRange_def total_len_positive_def dash_parses
      dash_repr_def dash_world_def exact_world_def init_state_def or_default_def ok_def
        num_sub_def to_number_small)

text \<open>
  The video leaf makes four requests, the two streams have 1000 and 500 bytes, one file is
  written at the output path, no temporary file stays, and the count is 1.
\<close>

lemma dash_end_to_end:
  "extractMediaRecursive dash_world dash_item ''out'' ''post'' init_state
     = (Inr 1,
        \<lparr>requests = [(''http://cdn/v'', Some (Finite 0, Finite 99)), (''http://cdn/v'', Some (Finite 100, Finite 999)),
                     (''http://cdn/a'', Some (Finite 0, Finite 49)), (''http://cdn/a'', Some (Finite 50, Finite 499))],
         files = [''out/post.mp4'' \<mapsto> (replicate 100 0 @ replicate 900 0) @ (replicate 50 0 @ replicate 450 0)],
         execs = [''out/post.mp4'']\<rparr>)"
proof -
  have p: "parseStringPromise dash_world ''<MPD/>'' = Some [Some dash_sets]"
    by (simp add: dash_world_def)
  have v: "downloadDashRepresentation dash_world (dash_repr ''v'' ''500000'' ''0-99'' ''1000'') init_state
     = (Inr (replicate 100 0 @ replicate 900 0),
        init_state\<lparr>requests := [(''http://cdn/v'', Some (Finite 0, Finite 99)), (''http://cdn/v'', Some (Finite 100, Finite 999))]\<rparr>)"
    by (rule dash_video_assembled)
  have a: "downloadDashRepresentation dash_world (dash_repr ''a'' ''128000'' ''0-49'' ''500'')
        (init_state\<lparr>requests := [(''http://cdn/v'', Some (Finite 0, Finite 99)), (''http://cdn/v'', Some (Finite 100, Finite 999))]\<rparr>)
     = (Inr (replicate 50 0 @ replicate 450 0),
        init_state\<lparr>requests := [(''http://cdn/v'', Some (Finite 0, Finite 99)), (''http://cdn/v'', Some (Finite 100, Finite 999)),
                     (''http://cdn/a'', Some (Finite 0, Finite 49)), (''http://cdn/a'', Some (Finite 50, Finite 499))]\<rparr>)"
    by (simp add: downloadDashRepresentation_def downloadRange_def total_len_positive_def dash_parses
        dash_repr_def dash_world_def exact_world_def init_state_def or_default_def ok_def
        num_sub_def to_number_small)
  have m: "mergeDashVideoAudio dash_world (replicate 100 0 @ replicate 900 0) (replicate 50 0 @ replicate 450 0)
        ''out/post.mp4''
        (init_state\<lparr>requests := [(''http://cdn/v'', Some (Finite 0, Finite 99)), (''http://cdn/v'', Some (Finite 100, Finite 999)),
                     (''http://cdn/a'', Some (Finite 0, Finite 49)), (''http://cdn/a'', Some (Finite 50, Finite 499))]\<rparr>)
     = (Inr (),
        \<lparr>requests = [(''http://cdn/v'', Some (Finite 0, Finite 99)), (''http://cdn/v'', Some (Finite 100, Finite 999)),
                     (''http://cdn/a'', Some (Finite 0, Finite 49)), (''http://cdn/a'', Some (Finite 50, Finite 499))],
         files = [''out/post.mp4'' \<mapsto> (replicate 100 0 @ replicate 900 0) @ (replicate 50 0 @ replicate 450 0)],
         execs = [''out/post.mp4'']\<rparr>)"
    by (simp add: mergeDashVideoAudio_def writeFileSync_def execSync_ffmpeg_def statSync_def unlinkSync_def
        dash_world_def exact_world_def init_state_def fun_upd_twist)
  show ?thesis
    using p v a m
    by (simp add: dash_item_def extract_leaf_def downloadBestQualityDash_def dash_sets_found dash_best
        truthy_def dash_world_def exact_world_def)
qed

text \<open>
  When the server answers the first range request with status 500, the exception of
  \<open>downloadRange\<close> leaves \<open>downloadDashRepresentation\<close>, \<open>downloadBestQualityDash\<close> and the
  loop over the children of a carousel: the image after the video is never requested.
\<close>

lemma carousel_dash_failure_aborts:
  "extractMediaRecursive dash_server_error_world
      (carousel [dash_item, image_item [display ''http://img/2'' 640]]) ''out'' ''post'' init_state
     = (Inl (Http_error 500 ''http://cdn/v''), init_state\<lparr>requests := [(''http://cdn/v'', Some (Finite 0, Finite 99))]\<rparr>)"
proof -
  have p: "parseStringPromise dash_server_error_world ''<MPD/>'' = Some [Some dash_sets]"
    by (simp add: dash_server_error_world_def dash_world_def)
  have v: "downloadDashRepresentation dash_server_error_world (dash_repr ''v'' ''500000'' ''0-99'' ''1000'') init_state
     = (Inl (Http_error 500 ''http://cdn/v''), init_state\<lparr>requests := [(''http://cdn/v'', Some (Finite 0, Finite 99))]\<rparr>)"
    by (simp add: downloadDashRepresentation_def downloadRange_def dash_parses
        dash_repr_def dash_server_error_world_def init_state_def ok_def)
  show ?thesis
    using p v
    by (simp add: carousel_def dash_item_def extract_leaf_def downloadBestQualityDash_def dash_sets_found
        dash_best truthy_def)
qed

end
